theory Spec2Isabelle
  imports Complex_Main "HOL-Library.Word"
begin

unbundle bit_operations_syntax

section \<open>Bytes and the parsing primitives of the construct library\<close>

text \<open>
  The readers of \<^verbatim>\<open>han/dlms_tinetz.py\<close> and \<^verbatim>\<open>han/kaifa_tinetz.py\<close> are declared with
  the Python library \<^verbatim>\<open>construct\<close>. A construct parses from a stream and either returns a
  value, leaving the stream at the first unread byte, or raises a subclass of
  \<^verbatim>\<open>ConstructError\<close>. Here a stream is the list of bytes still unread, and a parser
  returns either the error or the value with the rest of the stream. The sequencing of
  fields is the same whatever the exceptions are, so it is stated for any type of errors.
\<close>

type_synonym byte = "8 word"

datatype construct_error =
  StreamError | ConstError | CheckError | ValidationError | ChecksumError | SelectError

type_synonym ('e, 'a) parser_of = "byte list \<Rightarrow> 'e + ('a \<times> byte list)"

type_synonym 'a parser = "(construct_error, 'a) parser_of"

definition parsed :: "'a \<Rightarrow> ('e, 'a) parser_of" where
  "parsed a s = Inr (a, s)"

definition failed :: "'e \<Rightarrow> ('e, 'a) parser_of" where
  "failed e s = Inl e"

text \<open>Sequencing of two fields of a \<^verbatim>\<open>Struct\<close>: the first error ends the parse.\<close>

definition then_parse ::
  "('e, 'a) parser_of \<Rightarrow> ('a \<Rightarrow> ('e, 'b) parser_of) \<Rightarrow> ('e, 'b) parser_of" where
  "then_parse p f s = (case p s of Inl e \<Rightarrow> Inl e | Inr (a, rest) \<Rightarrow> f a rest)"

text \<open>\<^verbatim>\<open>X.parse(data)\<close>: the value alone; bytes left in the stream are ignored.\<close>

definition parse :: "('e, 'a) parser_of \<Rightarrow> byte list \<Rightarrow> 'e + 'a" where
  "parse p s = (case p s of Inl e \<Rightarrow> Inl e | Inr (a, rest) \<Rightarrow> Inr a)"

definition Int8ub :: "byte parser" where
  "Int8ub s = (case s of [] \<Rightarrow> Inl StreamError | b # rest \<Rightarrow> Inr (b, rest))"

definition Int16ub :: "nat parser" where
  "Int16ub = then_parse Int8ub (\<lambda>hi. then_parse Int8ub (\<lambda>lo. parsed (256 * unat hi + unat lo)))"

definition Const :: "byte \<Rightarrow> byte parser" where
  "Const v = then_parse Int8ub (\<lambda>b. if b = v then parsed b else failed ConstError)"

definition OneOf :: "byte parser \<Rightarrow> byte list \<Rightarrow> byte parser" where
  "OneOf p valids = then_parse p (\<lambda>b. if b \<in> set valids then parsed b else failed ValidationError)"

definition Check :: "bool \<Rightarrow> unit parser" where
  "Check c = (if c then parsed () else failed CheckError)"

text \<open>\<^verbatim>\<open>Bytes(n)\<close>: a negative length and a stream shorter than \<open>n\<close> are both a StreamError.\<close>

definition Bytes :: "int \<Rightarrow> byte list parser" where
  "Bytes n s =
     (if n < 0 then Inl StreamError
      else if int (length s) < n then Inl StreamError
      else Inr (take (nat n) s, drop (nat n) s))"

definition GreedyBytes :: "byte list parser" where
  "GreedyBytes s = Inr (s, [])"

text \<open>\<^verbatim>\<open>subcon[n]\<close>: exactly \<open>n\<close> values in a row.\<close>

primrec Array :: "nat \<Rightarrow> 'a parser \<Rightarrow> 'a list parser" where
  "Array 0 p = parsed []"
| "Array (Suc n) p = then_parse p (\<lambda>x. then_parse (Array n p) (\<lambda>xs. parsed (x # xs)))"

text \<open>\<^verbatim>\<open>Peek\<close>: the value without consuming it, \<open>None\<close> when the subconstruct fails.\<close>

definition Peek :: "'a parser \<Rightarrow> 'a option parser" where
  "Peek p s = (case p s of Inl e \<Rightarrow> Inr (None, s) | Inr (a, rest) \<Rightarrow> Inr (Some a, s))"

text \<open>\<^verbatim>\<open>If(cond, subcon)\<close>: the subconstruct when the condition holds, else \<open>None\<close>.\<close>

definition If_parse :: "bool \<Rightarrow> 'a parser \<Rightarrow> 'a option parser" where
  "If_parse c p = (if c then then_parse p (\<lambda>a. parsed (Some a)) else parsed None)"

text \<open>
  \<^verbatim>\<open>Checksum(Int8ub, hashfunc, bytesfunc)\<close> with \<^verbatim>\<open>hashfunc = lambda data: sum(data) % 256\<close>:
  the stored byte is read and compared with the hash of the values picked from the context.
\<close>

definition hashfunc :: "nat list \<Rightarrow> nat" where
  "hashfunc data = sum_list data mod 256"

definition Checksum :: "nat list \<Rightarrow> byte parser" where
  "Checksum data =
     then_parse Int8ub (\<lambda>hash1. if unat hash1 \<noteq> hashfunc data then failed ChecksumError else parsed hash1)"

section \<open>The frame layouts of dlms\_tinetz\<close>

record MBusDataLinkHeader_t =
  Start_Character :: byte
  L_Field :: byte
  L_Field_copy :: byte
  C_Field :: byte
  A_Field :: byte

definition MBusDataLinkHeader :: "MBusDataLinkHeader_t parser" where
  "MBusDataLinkHeader =
     then_parse (Const 0x68) (\<lambda>s1.
     then_parse Int8ub (\<lambda>l.
     then_parse Int8ub (\<lambda>l'.
     then_parse (Check (l' = l)) (\<lambda>_.
     then_parse (Const 0x68) (\<lambda>s2.
     then_parse (OneOf Int8ub [0x53, 0x73]) (\<lambda>c.
     then_parse (Const 0xFF) (\<lambda>a.
     parsed \<lparr>Start_Character = s2, L_Field = l, L_Field_copy = l', C_Field = c, A_Field = a\<rparr>)))))))"

record MBusTransportLayer_t =
  CI_Field :: byte
  STSAP :: byte
  DTSAP :: byte

text \<open>\<^verbatim>\<open>range(0x00, 0x1F)\<close> is 0x00 to 0x1E.\<close>

definition MBusTransportLayer :: "MBusTransportLayer_t parser" where
  "MBusTransportLayer =
     then_parse (OneOf Int8ub (map of_nat [0x00..<0x1F])) (\<lambda>ci.
     then_parse (Const 0x01) (\<lambda>st.
     then_parse (Const 0x67) (\<lambda>dt.
     parsed \<lparr>CI_Field = ci, STSAP = st, DTSAP = dt\<rparr>)))"

record MBusDataLinkLayer_t =
  Header :: MBusDataLinkHeader_t
  TransportLayer :: MBusTransportLayer_t
  Data :: "byte list"
  Checksum_Field :: byte
  Stop_Character :: byte

definition checksum_bytes :: "MBusDataLinkHeader_t \<Rightarrow> MBusTransportLayer_t \<Rightarrow> byte list \<Rightarrow> nat list" where
  "checksum_bytes h t d =
     [sum_list (map unat d), unat (C_Field h), unat (A_Field h),
      unat (CI_Field t), unat (STSAP t), unat (DTSAP t)]"

definition MBusDataLinkLayer :: "MBusDataLinkLayer_t parser" where
  "MBusDataLinkLayer =
     then_parse MBusDataLinkHeader (\<lambda>h.
     then_parse MBusTransportLayer (\<lambda>t.
     then_parse (Bytes (int (unat (L_Field h)) - 5)) (\<lambda>d.
     then_parse (Checksum (checksum_bytes h t d)) (\<lambda>c.
     then_parse (Const 0x16) (\<lambda>stop.
     parsed \<lparr>Header = h, TransportLayer = t, Data = d, Checksum_Field = c, Stop_Character = stop\<rparr>)))))"

record DLMSApplicationLayer_t =
  Ciphering_Service :: byte
  System_Title_Length :: byte
  System_Title :: "byte list"
  length_peek :: "byte option"
  Length_Prefix :: "byte option"
  Length :: nat
  Security_Control_Byte :: byte
  Frame_Counter :: "byte list"
  Encrypted_Payload :: "byte list"

text \<open>
  \<^verbatim>\<open>Switch(this._length_peek, {0x82: Int16ub}, default=Int8ub)\<close>: a peek that found no byte
  is \<open>None\<close>, which is not a key of the table, so the default is taken.
\<close>

definition DLMSApplicationLayer :: "DLMSApplicationLayer_t parser" where
  "DLMSApplicationLayer =
     then_parse (Const 0xDB) (\<lambda>cs.
     then_parse (Const 0x08) (\<lambda>stl.
     then_parse (Array 8 Int8ub) (\<lambda>st.
     then_parse (Peek Int8ub) (\<lambda>pk.
     then_parse (If_parse (pk = Some 0x82) Int8ub) (\<lambda>pre.
     then_parse (if pk = Some 0x82 then Int16ub else then_parse Int8ub (\<lambda>b. parsed (unat b))) (\<lambda>len.
     then_parse (Const 0x21) (\<lambda>sc.
     then_parse (Array 4 Int8ub) (\<lambda>fc.
     then_parse GreedyBytes (\<lambda>payload.
     parsed \<lparr>Ciphering_Service = cs, System_Title_Length = stl, System_Title = st,
       length_peek = pk, Length_Prefix = pre, Length = len, Security_Control_Byte = sc,
       Frame_Counter = fc, Encrypted_Payload = payload\<rparr>)))))))))"

section \<open>DlmsTinetzFrame\<close>

text \<open>
  \<^verbatim>\<open>binascii.unhexlify\<close> of the key: two hexadecimal digits a byte; an odd length or a
  character that is no hexadecimal digit raises \<^verbatim>\<open>binascii.Error\<close>.
\<close>

definition hex_digit :: "char \<Rightarrow> nat option" where
  "hex_digit c =
     (let n = of_char c :: nat in
      if 48 \<le> n \<and> n \<le> 57 then Some (n - 48)
      else if 97 \<le> n \<and> n \<le> 102 then Some (n - 87)
      else if 65 \<le> n \<and> n \<le> 70 then Some (n - 55)
      else None)"

fun unhexlify :: "string \<Rightarrow> byte list option" where
  "unhexlify [] = Some []"
| "unhexlify [c] = None"
| "unhexlify (a # b # rest) =
     (case hex_digit a of None \<Rightarrow> None | Some h \<Rightarrow>
      (case hex_digit b of None \<Rightarrow> None | Some l \<Rightarrow>
       (case unhexlify rest of None \<Rightarrow> None | Some bs \<Rightarrow> Some (of_nat (16 * h + l) # bs))))"

datatype py_exception = ConstructError construct_error | BinasciiError

record DlmsTinetzFrame =
  f_key :: "byte list"
  f_length :: int
  f_system_title :: "byte list"
  f_frame_counter :: "byte list"
  f_frame_data :: "byte list"

definition DlmsTinetzFrame_init ::
  "string \<Rightarrow> int \<Rightarrow> byte list \<Rightarrow> byte list \<Rightarrow> py_exception + DlmsTinetzFrame" where
  "DlmsTinetzFrame_init key_hex len system_title frame_counter =
     (case unhexlify key_hex of
        None \<Rightarrow> Inl BinasciiError
      | Some k \<Rightarrow> Inr \<lparr>f_key = k, f_length = len, f_system_title = system_title,
          f_frame_counter = frame_counter, f_frame_data = []\<rparr>)"

definition frame_extend :: "DlmsTinetzFrame \<Rightarrow> byte list \<Rightarrow> DlmsTinetzFrame" where
  "frame_extend f data_chunk = f\<lparr>f_frame_data := f_frame_data f @ data_chunk\<rparr>"

definition is_valid :: "DlmsTinetzFrame \<Rightarrow> bool" where
  "is_valid f = (int (length (f_frame_data f)) = f_length f)"

section \<open>The reader buffer\<close>

text \<open>
  \<^verbatim>\<open>bytearray.find(x, start)\<close>: the lowest index at or after \<open>start\<close> that holds \<open>x\<close>,
  or \<open>-1\<close>.
\<close>

definition bytes_find :: "byte list \<Rightarrow> byte \<Rightarrow> nat \<Rightarrow> int" where
  "bytes_find b x start =
     (let rest = drop start b; skipped = takeWhile (\<lambda>y. y \<noteq> x) rest
      in if length skipped = length rest then - 1 else int (start + length skipped))"

definition START_CHARACTER :: byte where
  "START_CHARACTER = 0x68"

definition trim_buffer_to_start_character_or_end :: "byte list \<Rightarrow> byte list" where
  "trim_buffer_to_start_character_or_end b =
     (let pos = bytes_find b START_CHARACTER 1
      in if pos = - 1 then [] else if pos \<ge> 1 then drop (nat pos) b else b)"

definition trim_buffer_to_pos :: "byte list \<Rightarrow> nat \<Rightarrow> byte list" where
  "trim_buffer_to_pos b pos = drop pos b"

section \<open>DlmsTinetzFrameReader\<close>

record reader =
  buffer :: "byte list"
  frame :: "DlmsTinetzFrame option"
  key_hex :: string

definition new_reader :: "string \<Rightarrow> reader" where
  "new_reader k = \<lparr>buffer = [], frame = None, key_hex = k\<rparr>"

definition is_in_hunt_mode :: "reader \<Rightarrow> bool" where
  "is_in_hunt_mode r = (frame r = None)"

text \<open>
  Lines 132 to 153 of \<^verbatim>\<open>read\<close>: what a physical frame that parsed does to the pending
  frame and to the list of frames received. Both exceptions that can be raised here are
  raised before \<^verbatim>\<open>self._frame\<close> is assigned.
\<close>

definition accumulate :: "reader \<Rightarrow> MBusDataLinkLayer_t \<Rightarrow> py_exception + reader" where
  "accumulate r mbus_data =
     (let ci_field = CI_Field (TransportLayer mbus_data) in
      if frame r = None \<and> ci_field AND 0x0F = 0 then
        (case parse DLMSApplicationLayer (Data mbus_data) of
           Inl e \<Rightarrow> Inl (ConstructError e)
         | Inr dlms_data \<Rightarrow>
            (case DlmsTinetzFrame_init (key_hex r) (int (Length dlms_data) - 5)
                    (System_Title dlms_data) (Frame_Counter dlms_data) of
               Inl e \<Rightarrow> Inl e
             | Inr f \<Rightarrow> Inr (r\<lparr>frame := Some (frame_extend f (Encrypted_Payload dlms_data))\<rparr>)))
      else if frame r \<noteq> None \<and> ci_field AND 0x0F > 0 then
        Inr (r\<lparr>frame := map_option (\<lambda>f. frame_extend f (Data mbus_data)) (frame r)\<rparr>)
      else Inr r)"

definition complete :: "reader \<Rightarrow> DlmsTinetzFrame list \<Rightarrow> byte \<Rightarrow> reader \<times> DlmsTinetzFrame list" where
  "complete r frames_received ci_field =
     (case frame r of
        None \<Rightarrow> (r, frames_received)
      | Some f \<Rightarrow>
         if ci_field AND 0x10 = 0x10 then
           (r\<lparr>frame := None\<rparr>, if is_valid f then frames_received @ [f] else frames_received)
         else (r, frames_received))"

text \<open>The body of the inner \<^verbatim>\<open>try\<close>, lines 130 to 153.\<close>

definition try_frame ::
  "reader \<Rightarrow> DlmsTinetzFrame list \<Rightarrow> py_exception + (reader \<times> DlmsTinetzFrame list)" where
  "try_frame r frames_received =
     (case parse MBusDataLinkLayer (buffer r) of
        Inl e \<Rightarrow> Inl (ConstructError e)
      | Inr mbus_data \<Rightarrow>
         (case accumulate r mbus_data of
            Inl e \<Rightarrow> Inl e
          | Inr r1 \<Rightarrow> Inr (complete r1 frames_received (CI_Field (TransportLayer mbus_data)))))"

text \<open>The handler of the outer \<^verbatim>\<open>except construct.ConstructError\<close>, lines 163 to 165.\<close>

definition resync :: "reader \<Rightarrow> reader" where
  "resync r = r\<lparr>frame := None, buffer := trim_buffer_to_start_character_or_end (buffer r)\<rparr>"

datatype iteration =
  LoopBreak
  | LoopNext reader "DlmsTinetzFrame list"
  | LoopRaise py_exception

text \<open>One pass through the body of the \<^verbatim>\<open>while\<close> loop, lines 124 to 165.\<close>

definition read_iteration :: "reader \<Rightarrow> DlmsTinetzFrame list \<Rightarrow> iteration" where
  "read_iteration r frames_received =
     (case parse MBusDataLinkHeader (buffer r) of
        Inl e \<Rightarrow> LoopNext (resync r) frames_received
      | Inr header \<Rightarrow>
         (let data_len = unat (L_Field header) + 6 in
          if length (buffer r) \<ge> data_len then
            (case try_frame r frames_received of
               Inl (ConstructError ChecksumError) \<Rightarrow>
                 LoopNext (r\<lparr>frame := None, buffer := trim_buffer_to_pos (buffer r) data_len\<rparr>)
                   frames_received
             | Inl (ConstructError e) \<Rightarrow> LoopNext (resync r) frames_received
             | Inl BinasciiError \<Rightarrow> LoopRaise BinasciiError
             | Inr (r1, frames1) \<Rightarrow>
                 LoopNext (r1\<lparr>buffer := trim_buffer_to_pos (buffer r1) data_len\<rparr>) frames1)
          else LoopBreak))"

section \<open>The notification body of kaifa\_tinetz\<close>

text \<open>
  \<^verbatim>\<open>han/kaifa_tinetz.py\<close> builds its elements from the constructs of \<^verbatim>\<open>han/cosem.py\<close>, which
  is not among the sources. The type tags are the ones the elements name; the parsers of
  \<^verbatim>\<open>cosem\<close> that the elements use are parameters, collected in a record.
\<close>

datatype CommonDataTypes_t =
  structure_tag | visible_string_tag | octet_string_tag | double_long_unsigned_tag
  | long_tag | long_unsigned_tag | other_tag byte

record ('v, 'd) cosem =
  CommonDataTypes :: "CommonDataTypes_t parser"
  ObisCodeOctedStringField :: "string parser"
  Field :: "'v parser"
  VisibleString :: "string parser"
  DateTime :: "'d parser"
  OctedStringText :: "string parser"
  DoubleLongUnsigned :: "int parser"
  Long :: "int parser"
  LongUnsigned :: "int parser"
  scale_exponent :: "int parser"
  unit_code :: "nat parser"

record Scaler_t =
  exponent :: int
  scale :: rat

record ScalerUnit_t =
  scaler :: Scaler_t
  unit_of :: nat

text \<open>
  Modelled from the spec: \<^verbatim>\<open>cosem.ScalerUnitField\<close> is missing from the sources. The spec
  describes it as a trailing scaler-and-unit sub-structure, a signed scale exponent and a
  unit code, whose scale is ten to the power of the exponent.
\<close>

definition ScalerUnitField :: "('v, 'd) cosem \<Rightarrow> ScalerUnit_t parser" where
  "ScalerUnitField c =
     then_parse (scale_exponent c) (\<lambda>e.
     then_parse (unit_code c) (\<lambda>u.
     parsed \<lparr>scaler = \<lparr>exponent = e, scale = 10 powi e\<rparr>, unit_of = u\<rparr>))"

text \<open>
  An exception inside an element is a \<^verbatim>\<open>ConstructError\<close> or, when \<^verbatim>\<open>Computed\<close> multiplies
  \<open>None\<close> by the scale, a \<^verbatim>\<open>TypeError\<close>.
\<close>

datatype element_error = ConstructFailure construct_error | TypeError

definition raising :: "'a parser \<Rightarrow> (element_error, 'a) parser_of" where
  "raising p s = (case p s of Inl e \<Rightarrow> Inl (ConstructFailure e) | Inr x \<Rightarrow> Inr x)"

text \<open>\<^verbatim>\<open>Const(value, cosem.CommonDataTypes)\<close>\<close>

definition Const_type :: "('v, 'd) cosem \<Rightarrow> CommonDataTypes_t \<Rightarrow> CommonDataTypes_t parser" where
  "Const_type c v = then_parse (CommonDataTypes c) (\<lambda>t. if t = v then parsed t else failed ConstError)"

text \<open>
  \<^verbatim>\<open>Select(a, b)\<close>: the first subconstruct that parses, from the same position; any
  exception of a subconstruct is caught, and when none parses it is a SelectError.
\<close>

definition Select :: "('e1, 'a) parser_of \<Rightarrow> ('e2, 'a) parser_of \<Rightarrow> 'a parser" where
  "Select p q s =
     (case p s of
        Inr x \<Rightarrow> Inr x
      | Inl _ \<Rightarrow> (case q s of Inr y \<Rightarrow> Inr y | Inl _ \<Rightarrow> Inl SelectError))"

text \<open>
  \<^verbatim>\<open>GreedyRange(subcon)\<close>: values as long as the subconstruct parses; the first exception
  ends the list and the stream goes back to where that element began. A subconstruct that
  parses without consuming keeps the loop running for ever: then the result is \<open>None\<close>.
\<close>

partial_function (option) GreedyRange ::
  "('e, 'a) parser_of \<Rightarrow> byte list \<Rightarrow> ('a list \<times> byte list) option" where
  "GreedyRange p s =
     (case p s of
        Inl e \<Rightarrow> Some ([], s)
      | Inr (a, rest) \<Rightarrow> Option.bind (GreedyRange p rest) (\<lambda>(xs, r). Some (a # xs, r)))"

record ('v, 'd) SimpleElement_t =
  se_element_type :: "CommonDataTypes_t option"
  se_obis :: string
  se_value_type :: "CommonDataTypes_t option"
  se_value :: 'v
  se_cnt :: nat

definition SimpleElement :: "('v, 'd) cosem \<Rightarrow> ('v, 'd) SimpleElement_t parser" where
  "SimpleElement c =
     then_parse (Peek (CommonDataTypes c)) (\<lambda>et.
     then_parse (ObisCodeOctedStringField c) (\<lambda>ob.
     then_parse (Peek (CommonDataTypes c)) (\<lambda>vt.
     then_parse (Field c) (\<lambda>v.
     parsed \<lparr>se_element_type = et, se_obis = ob, se_value_type = vt, se_value = v, se_cnt = 2\<rparr>))))"

record Scaled_t =
  unscaled_value :: int
  scaler_unit :: ScalerUnit_t
  scaled_value :: rat

datatype 'd content_t = ContentText string | ContentDateTime 'd | ContentScaled Scaled_t

datatype 'd exposed_t = ExposedText string | ExposedDateTime 'd | ExposedNumber rat

record 'd StructElement_t =
  st_length :: byte
  st_obis :: string
  st_content_type :: CommonDataTypes_t
  st_content :: "'d content_t"
  st_value :: "'d exposed_t"
  st_cnt :: nat

text \<open>
  The inner \<^verbatim>\<open>Switch\<close> has no default: for a content type that is none of the three it
  gives \<open>None\<close>, and the product with the scale raises.
\<close>

definition unscaled :: "('v, 'd) cosem \<Rightarrow> CommonDataTypes_t \<Rightarrow> int option parser" where
  "unscaled c content_type =
     (case content_type of
        double_long_unsigned_tag \<Rightarrow> then_parse (DoubleLongUnsigned c) (\<lambda>n. parsed (Some n))
      | long_tag \<Rightarrow> then_parse (Long c) (\<lambda>n. parsed (Some n))
      | long_unsigned_tag \<Rightarrow> then_parse (LongUnsigned c) (\<lambda>n. parsed (Some n))
      | _ \<Rightarrow> parsed None)"

definition content :: "('v, 'd) cosem \<Rightarrow> CommonDataTypes_t \<Rightarrow> (element_error, 'd content_t) parser_of" where
  "content c content_type =
     (case content_type of
        visible_string_tag \<Rightarrow> raising (then_parse (VisibleString c) (\<lambda>t. parsed (ContentText t)))
      | octet_string_tag \<Rightarrow>
          raising (Select (then_parse (DateTime c) (\<lambda>d. parsed (ContentDateTime d)))
                          (then_parse (OctedStringText c) (\<lambda>t. parsed (ContentText t))))
      | _ \<Rightarrow>
          then_parse (raising (unscaled c content_type)) (\<lambda>u.
          then_parse (raising (ScalerUnitField c)) (\<lambda>su.
          (case u of
             None \<Rightarrow> failed TypeError
           | Some n \<Rightarrow> parsed (ContentScaled \<lparr>unscaled_value = n, scaler_unit = su,
                          scaled_value = of_int n * scale (scaler su)\<rparr>)))))"

text \<open>
  \<^verbatim>\<open>ctx.content.value if hasattr(ctx.content, "value") else ctx.content\<close>: the scaled
  structure has the field, a text and a date-time are exposed as they are.
\<close>

definition exposed :: "'d content_t \<Rightarrow> 'd exposed_t" where
  "exposed ct =
     (case ct of
        ContentScaled sv \<Rightarrow> ExposedNumber (scaled_value sv)
      | ContentText t \<Rightarrow> ExposedText t
      | ContentDateTime d \<Rightarrow> ExposedDateTime d)"

definition StructElement :: "('v, 'd) cosem \<Rightarrow> (element_error, 'd StructElement_t) parser_of" where
  "StructElement c =
     then_parse (raising (Const_type c structure_tag)) (\<lambda>_.
     then_parse (raising Int8ub) (\<lambda>len.
     then_parse (raising (ObisCodeOctedStringField c)) (\<lambda>ob.
     then_parse (raising (CommonDataTypes c)) (\<lambda>ctype.
     then_parse (content c ctype) (\<lambda>ct.
     parsed \<lparr>st_length = len, st_obis = ob, st_content_type = ctype, st_content = ct,
       st_value = exposed ct, st_cnt = 1\<rparr>)))))"

datatype ('v, 'd) item = Simple "('v, 'd) SimpleElement_t" | Structured "'d StructElement_t"

definition cnt :: "('v, 'd) item \<Rightarrow> nat" where
  "cnt i = (case i of Simple x \<Rightarrow> se_cnt x | Structured y \<Rightarrow> st_cnt y)"

definition Element :: "('v, 'd) cosem \<Rightarrow> ('v, 'd) item parser" where
  "Element c =
     Select (then_parse (SimpleElement c) (\<lambda>x. parsed (Simple x)))
            (then_parse (StructElement c) (\<lambda>y. parsed (Structured y)))"

record ('v, 'd) NotificationBody_t =
  nb_fields :: byte
  list_items :: "('v, 'd) item list"

definition NotificationBodyObisElements ::
  "('v, 'd) cosem \<Rightarrow> byte list \<Rightarrow>
   (construct_error + (('v, 'd) NotificationBody_t \<times> byte list)) option" where
  "NotificationBodyObisElements c s =
     (case then_parse (Const_type c structure_tag) (\<lambda>_. Int8ub) s of
        Inl e \<Rightarrow> Some (Inl e)
      | Inr (n, rest) \<Rightarrow>
          (case GreedyRange (Element c) rest of
             None \<Rightarrow> None
           | Some (items, rest') \<Rightarrow>
               Some (then_parse (Check (unat n = sum_list (map cnt items)))
                       (\<lambda>_. parsed \<lparr>nb_fields = n, list_items = items\<rparr>) rest')))"

subsection \<open>An instance of the parameters\<close>

text \<open>
  For the examples, the parameters are instantiated with parsers in the DLMS encoding:
  the tags 2, 10, 9, 6, 16 and 18; an OBIS code as an octet string of six bytes; a
  directly typed value as a long-unsigned; the scaler as an integer of one signed byte and
  the unit as an enum.
\<close>

definition example_tags :: "CommonDataTypes_t parser" where
  "example_tags =
     then_parse Int8ub (\<lambda>b. parsed
       (if b = 2 then structure_tag else if b = 10 then visible_string_tag
        else if b = 9 then octet_string_tag else if b = 6 then double_long_unsigned_tag
        else if b = 16 then long_tag else if b = 18 then long_unsigned_tag else other_tag b))"

definition example_text :: "string parser" where
  "example_text =
     then_parse Int8ub (\<lambda>n. then_parse (Bytes (int (unat n)))
       (\<lambda>bs. parsed (map (\<lambda>b. char_of (unat b)) bs)))"

definition example_cosem :: "(int, byte list) cosem" where
  "example_cosem =
     \<lparr>CommonDataTypes = example_tags,
      ObisCodeOctedStringField =
        then_parse (Const 0x09) (\<lambda>_. then_parse (Const 0x06) (\<lambda>_. then_parse (Bytes 6)
          (\<lambda>bs. parsed (map (\<lambda>b. char_of (unat b)) bs)))),
      Field = then_parse (Const 0x12) (\<lambda>_. then_parse Int16ub (\<lambda>n. parsed (int n))),
      VisibleString = example_text,
      DateTime = then_parse (Const 0x0C) (\<lambda>_. Bytes 12),
      OctedStringText = example_text,
      DoubleLongUnsigned =
        then_parse Int16ub (\<lambda>hi. then_parse Int16ub (\<lambda>lo. parsed (int (65536 * hi + lo)))),
      Long = then_parse Int8ub (\<lambda>hi. then_parse Int8ub (\<lambda>lo. parsed (256 * sint hi + uint lo))),
      LongUnsigned = then_parse Int16ub (\<lambda>n. parsed (int n)),
      scale_exponent =
        then_parse (Const 0x02) (\<lambda>_. then_parse (Const 0x02) (\<lambda>_. then_parse (Const 0x0F)
          (\<lambda>_. then_parse Int8ub (\<lambda>e. parsed (sint e))))),
      unit_code = then_parse (Const 0x16) (\<lambda>_. then_parse Int8ub (\<lambda>u. parsed (unat u)))\<rparr>"

section \<open>The loop of read\<close>

lemma trim_start_shorter:
  "b \<noteq> [] \<Longrightarrow> length (trim_buffer_to_start_character_or_end b) < length b"
  by (auto simp: trim_buffer_to_start_character_or_end_def bytes_find_def Let_def)

lemma complete_buffer: "buffer (fst (complete r fr ci)) = buffer r"
  by (simp add: complete_def split: option.splits)

lemma accumulate_buffer: "accumulate r m = Inr r1 \<Longrightarrow> buffer r1 = buffer r"
  by (auto simp: accumulate_def Let_def split: if_splits sum.splits)

lemma try_frame_buffer: "try_frame r fr = Inr (r1, fr1) \<Longrightarrow> buffer r1 = buffer r"
  by (auto simp: try_frame_def split: sum.splits)
    (metis accumulate_buffer complete_buffer fst_conv)

lemma read_iteration_shorter:
  "6 \<le> length (buffer r) \<Longrightarrow> read_iteration r fr = LoopNext r' fr' \<Longrightarrow>
   length (buffer r') < length (buffer r)"
  apply (auto simp: read_iteration_def Let_def resync_def trim_buffer_to_pos_def
      split: sum.splits if_splits py_exception.splits construct_error.splits dest!: try_frame_buffer)
  apply (rule trim_start_shorter, auto)+
  done

text \<open>
  The \<^verbatim>\<open>while self._buffer.size >= 6\<close> loop, lines 123 to 167. It returns the reader as
  the loop left it and the frames received, or the exception that left \<^verbatim>\<open>read\<close>.
\<close>

function read_loop ::
  "reader \<Rightarrow> DlmsTinetzFrame list \<Rightarrow> py_exception + (reader \<times> DlmsTinetzFrame list)" where
  "read_loop r frames_received =
     (if 6 \<le> length (buffer r) then
        (case read_iteration r frames_received of
           LoopBreak \<Rightarrow> Inr (r, frames_received)
         | LoopNext r' frames' \<Rightarrow> read_loop r' frames'
         | LoopRaise e \<Rightarrow> Inl e)
      else Inr (r, frames_received))"
  by pat_completeness auto
termination
  by (relation "measure (\<lambda>(r, fr). length (buffer r))") (auto dest: read_iteration_shorter)

declare read_loop.simps [simp del]

definition read :: "reader \<Rightarrow> byte list \<Rightarrow> py_exception + (reader \<times> DlmsTinetzFrame list)" where
  "read r data_chunk = read_loop (r\<lparr>buffer := buffer r @ data_chunk\<rparr>) []"

section \<open>Properties of the frame layouts\<close>

lemmas parser_defs = parsed_def failed_def then_parse_def parse_def Int8ub_def Int16ub_def
  Const_def OneOf_def Check_def Bytes_def GreedyBytes_def Peek_def If_parse_def Checksum_def

lemma CI_allowed: "(ci :: byte) \<in> set (map of_nat [0x00..<0x1F]) \<longleftrightarrow> unat ci < 0x1F"
proof
  assume "ci \<in> set (map of_nat [0x00..<0x1F])"
  then obtain n where "n < 0x1F" "ci = of_nat n" by auto
  then show "unat ci < 0x1F" by (simp add: unat_of_nat)
next
  assume "unat ci < 0x1F"
  then have "unat ci \<in> set [0x00..<0x1F]" by simp
  then have "of_nat (unat ci) \<in> set (map of_nat [0x00..<0x1F] :: byte list)"
    unfolding set_map by (rule imageI)
  then show "ci \<in> set (map of_nat [0x00..<0x1F])" by simp
qed

lemma header_parse_iff:
  "MBusDataLinkHeader s = Inr (h, rest) \<longleftrightarrow>
     (\<exists>L C. s = [0x68, L, L, 0x68, C, 0xFF] @ rest \<and> (C = 0x53 \<or> C = 0x73) \<and>
        h = \<lparr>Start_Character = 0x68, L_Field = L, L_Field_copy = L, C_Field = C, A_Field = 0xFF\<rparr>)"
  by (auto simp: MBusDataLinkHeader_def parser_defs split: list.splits if_splits)

lemma transport_parse_iff:
  "MBusTransportLayer s = Inr (t, rest) \<longleftrightarrow>
     (\<exists>CI. s = [CI, 0x01, 0x67] @ rest \<and> unat CI < 0x1F \<and>
        t = \<lparr>CI_Field = CI, STSAP = 0x01, DTSAP = 0x67\<rparr>)"
  unfolding MBusTransportLayer_def OneOf_def CI_allowed
  by (auto simp: parser_defs split: list.splits if_splits)


lemma header_parse_layout:
  "C = 0x53 \<or> C = 0x73 \<Longrightarrow>
   MBusDataLinkHeader (0x68 # L # L # 0x68 # C # 0xFF # rest) =
     Inr (\<lparr>Start_Character = 0x68, L_Field = L, L_Field_copy = L, C_Field = C, A_Field = 0xFF\<rparr>, rest)"
  using header_parse_iff [of "[0x68, L, L, 0x68, C, 0xFF] @ rest" _ rest] by simp

lemma transport_parse_layout:
  "unat CI < 0x1F \<Longrightarrow>
   MBusTransportLayer (CI # 0x01 # 0x67 # rest) = Inr (\<lparr>CI_Field = CI, STSAP = 0x01, DTSAP = 0x67\<rparr>, rest)"
  using transport_parse_iff [of "[CI, 0x01, 0x67] @ rest" _ rest] by simp

lemma Bytes_exact: "n = int (length d) \<Longrightarrow> Bytes n (d @ rest) = Inr (d, rest)"
  by (simp add: Bytes_def)

lemma layer_parse_layout:
  assumes "C = 0x53 \<or> C = 0x73" and "unat CI < 0x1F" and "5 \<le> unat L"
    and "length d = unat L - 5"
  shows "parse MBusDataLinkLayer ([0x68, L, L, 0x68, C, 0xFF, CI, 0x01, 0x67] @ d @ c # stop # rest) =
     (if unat c \<noteq> (sum_list (map unat d) + unat C + unat (0xFF :: byte) + unat CI
            + unat (0x01 :: byte) + unat (0x67 :: byte)) mod 256
      then Inl ChecksumError
      else if stop \<noteq> 0x16 then Inl ConstError
      else Inr \<lparr>Header = \<lparr>Start_Character = 0x68, L_Field = L, L_Field_copy = L, C_Field = C,
                  A_Field = 0xFF\<rparr>,
                TransportLayer = \<lparr>CI_Field = CI, STSAP = 0x01, DTSAP = 0x67\<rparr>,
                Data = d, Checksum_Field = c, Stop_Character = stop\<rparr>)"
proof -
  let ?h = "\<lparr>Start_Character = 0x68, L_Field = L, L_Field_copy = L, C_Field = C, A_Field = 0xFF\<rparr>"
  let ?t = "\<lparr>CI_Field = CI, STSAP = 0x01, DTSAP = 0x67\<rparr>"
  have len: "int (unat (L_Field ?h)) - 5 = int (length d)"
    using assms(3,4) by simp
  have bytes: "Bytes (int (unat (L_Field ?h)) - 5) (d @ c # stop # rest) = Inr (d, c # stop # rest)"
    using len by (rule Bytes_exact)
  show ?thesis
    using assms(1,2) bytes
    by (simp add: MBusDataLinkLayer_def then_parse_def [of MBusDataLinkHeader]
      then_parse_def [of MBusTransportLayer] header_parse_layout transport_parse_layout
      parse_def then_parse_def [of "Bytes _"] Checksum_def Int8ub_def
      then_parse_def [of Int8ub] then_parse_def [of "then_parse _ _"] Const_def parsed_def failed_def
      hashfunc_def checksum_bytes_def add_ac)
qed

text \<open>
  Claim C6. A fully buffered physical frame (header and transport sub-header of the frame
  layout, \<open>L - 5\<close> payload bytes, checksum byte, stop byte) raises the checksum error
  exactly when its checksum byte differs from the sum of the payload bytes, the control
  field, the address field, the CI field and the two access-point bytes, modulo 256. The
  checksum error is a value of its own: with the right checksum the frame parses, or fails
  on its stop byte with a structural error.
\<close>

theorem checksum_decides:
  assumes "C = 0x53 \<or> C = 0x73" and "unat CI < 0x1F" and "5 \<le> unat L"
    and "length d = unat L - 5"
  shows "parse MBusDataLinkLayer ([0x68, L, L, 0x68, C, 0xFF, CI, 0x01, 0x67] @ d @ c # stop # rest) =
     (if unat c \<noteq> (sum_list (map unat d) + unat C + unat (0xFF :: byte) + unat CI
            + unat (0x01 :: byte) + unat (0x67 :: byte)) mod 256
      then Inl ChecksumError
      else if stop \<noteq> 0x16 then Inl ConstError
      else Inr \<lparr>Header = \<lparr>Start_Character = 0x68, L_Field = L, L_Field_copy = L, C_Field = C,
                  A_Field = 0xFF\<rparr>,
                TransportLayer = \<lparr>CI_Field = CI, STSAP = 0x01, DTSAP = 0x67\<rparr>,
                Data = d, Checksum_Field = c, Stop_Character = stop\<rparr>)"
  using assms by (rule layer_parse_layout)

theorem checksum_decides_witness:
  "parse MBusDataLinkLayer [0x68, 0x07, 0x07, 0x68, 0x53, 0xFF, 0x11, 0x01, 0x67, 0xAA, 0xBB, 0x30, 0x16]
     = Inr \<lparr>Header = \<lparr>Start_Character = 0x68, L_Field = 0x07, L_Field_copy = 0x07,
                  C_Field = 0x53, A_Field = 0xFF\<rparr>,
             TransportLayer = \<lparr>CI_Field = 0x11, STSAP = 0x01, DTSAP = 0x67\<rparr>,
             Data = [0xAA, 0xBB], Checksum_Field = 0x30, Stop_Character = 0x16\<rparr>
   \<and> parse MBusDataLinkLayer [0x68, 0x07, 0x07, 0x68, 0x53, 0xFF, 0x11, 0x01, 0x67, 0xAA, 0xBB, 0x31, 0x16]
     = Inl ChecksumError"
  using checksum_decides [where C = "0x53" and CI = "0x11" and L = "0x07" and d = "[0xAA, 0xBB]"
      and c = "0x30" and stop = "0x16" and rest = "[]"]
    checksum_decides [where C = "0x53" and CI = "0x11" and L = "0x07" and d = "[0xAA, 0xBB]"
      and c = "0x31" and stop = "0x16" and rest = "[]"]
  by simp


lemma Array_Int8ub: "Array (length xs) Int8ub (xs @ rest) = Inr (xs, rest)"
  by (induction xs) (simp_all add: parsed_def then_parse_def Int8ub_def)

lemma Array8: "length title = 8 \<Longrightarrow> Array 8 Int8ub (title @ rest) = Inr (title, rest)"
  using Array_Int8ub [of title rest] by simp

lemma Array4: "length fc = 4 \<Longrightarrow> Array 4 Int8ub (fc @ rest) = Inr (fc, rest)"
  using Array_Int8ub [of fc rest] by simp

text \<open>
  Claim C5. In the ciphering header, the byte after the 8-byte system title decides the
  length field: when it is 0x82 it is consumed as a prefix and the length is the next two
  bytes, big-endian; any other byte is itself the length. In both cases the security
  control byte, the frame counter and the payload follow directly.
\<close>

theorem DLMSApplicationLayer_length:
  assumes "length title = 8" and "length fc = 4"
  shows "parse DLMSApplicationLayer ([0xDB, 0x08] @ title @ [0x82, hi, lo, 0x21] @ fc @ payload) =
           Inr \<lparr>Ciphering_Service = 0xDB, System_Title_Length = 0x08, System_Title = title,
             length_peek = Some 0x82, Length_Prefix = Some 0x82, Length = 256 * unat hi + unat lo,
             Security_Control_Byte = 0x21, Frame_Counter = fc, Encrypted_Payload = payload\<rparr>
       \<and> (b \<noteq> 0x82 \<longrightarrow>
          parse DLMSApplicationLayer ([0xDB, 0x08] @ title @ [b, 0x21] @ fc @ payload) =
           Inr \<lparr>Ciphering_Service = 0xDB, System_Title_Length = 0x08, System_Title = title,
             length_peek = Some b, Length_Prefix = None, Length = unat b,
             Security_Control_Byte = 0x21, Frame_Counter = fc, Encrypted_Payload = payload\<rparr>)"
  using assms
  by (simp add: DLMSApplicationLayer_def parser_defs Array8 Array4)

theorem DLMSApplicationLayer_length_witness:
  "parse DLMSApplicationLayer
     [0xDB, 0x08, 1, 2, 3, 4, 5, 6, 7, 8, 0x82, 0x01, 0x02, 0x21, 9, 9, 9, 9, 7, 7] =
     Inr \<lparr>Ciphering_Service = 0xDB, System_Title_Length = 0x08,
       System_Title = [1, 2, 3, 4, 5, 6, 7, 8], length_peek = Some 0x82,
       Length_Prefix = Some 0x82, Length = 258, Security_Control_Byte = 0x21,
       Frame_Counter = [9, 9, 9, 9], Encrypted_Payload = [7, 7]\<rparr>
   \<and> parse DLMSApplicationLayer
     [0xDB, 0x08, 1, 2, 3, 4, 5, 6, 7, 8, 0x2D, 0x21, 9, 9, 9, 9, 7, 7] =
     Inr \<lparr>Ciphering_Service = 0xDB, System_Title_Length = 0x08,
       System_Title = [1, 2, 3, 4, 5, 6, 7, 8], length_peek = Some 0x2D,
       Length_Prefix = None, Length = 45, Security_Control_Byte = 0x21,
       Frame_Counter = [9, 9, 9, 9], Encrypted_Payload = [7, 7]\<rparr>"
  using DLMSApplicationLayer_length [where title = "[1, 2, 3, 4, 5, 6, 7, 8]" and fc = "[9, 9, 9, 9]"
      and hi = "0x01" and lo = "0x02" and payload = "[7, 7]" and b = "0x2D"]
  by simp

section \<open>Resynchronisation\<close>

lemma trim_eq:
  "trim_buffer_to_start_character_or_end b = dropWhile (\<lambda>x. x \<noteq> START_CHARACTER) (tl b)"
proof -
  let ?P = "\<lambda>x. x \<noteq> START_CHARACTER"
  show ?thesis
  proof (cases "length (takeWhile ?P (tl b)) = length (tl b)")
    case True
    then have "takeWhile ?P (tl b) = tl b"
      by (metis takeWhile_eq_take take_all order_refl)
    then have d: "dropWhile ?P (tl b) = []"
      by (metis takeWhile_dropWhile_id self_append_conv)
    have "trim_buffer_to_start_character_or_end b = []"
      using True
      by (simp add: trim_buffer_to_start_character_or_end_def bytes_find_def Let_def drop_Suc)
    then show ?thesis
      by (simp only: d)
  next
    case False
    then show ?thesis
      by (simp add: trim_buffer_to_start_character_or_end_def bytes_find_def Let_def drop_Suc
          dropWhile_eq_drop nat_add_distrib)
  qed
qed

lemma header_error_iff:
  "(\<exists>e. parse MBusDataLinkHeader (b0 # b1 # b2 # b3 # b4 # b5 # rest) = Inl e) \<longleftrightarrow>
     b0 \<noteq> 0x68 \<or> b2 \<noteq> b1 \<or> b3 \<noteq> 0x68 \<or> (b4 \<noteq> 0x53 \<and> b4 \<noteq> 0x73) \<or> b5 \<noteq> 0xFF"
  by (auto simp: MBusDataLinkHeader_def parser_defs split: list.splits if_splits)

lemma read_loop_next:
  "6 \<le> length (buffer r) \<Longrightarrow> read_iteration r fr = LoopNext r' fr' \<Longrightarrow>
   read_loop r fr = read_loop r' fr'"
  by (subst read_loop.simps) simp

lemma read_loop_break:
  "read_iteration r fr = LoopBreak \<Longrightarrow> read_loop r fr = Inr (r, fr)"
  by (subst read_loop.simps) simp

lemma read_loop_short:
  "length (buffer r) < 6 \<Longrightarrow> read_loop r fr = Inr (r, fr)"
  by (subst read_loop.simps) simp

lemma construct_error_resyncs:
  assumes "(\<exists>e. parse MBusDataLinkHeader (buffer r) = Inl e) \<or>
     (\<exists>h e. parse MBusDataLinkHeader (buffer r) = Inr h \<and> unat (L_Field h) + 6 \<le> length (buffer r) \<and>
         try_frame r fr = Inl (ConstructError e) \<and> e \<noteq> ChecksumError)"
  shows "read_iteration r fr = LoopNext (resync r) fr"
  using assms
  by (auto simp: read_iteration_def Let_def split: construct_error.splits)


lemma transport_invalid_ci:
  "0x1F \<le> unat ci \<Longrightarrow> MBusTransportLayer (ci # rest) = Inl ValidationError"
proof -
  assume "0x1F \<le> unat ci"
  then have "ci \<notin> set (map of_nat [0x00..<0x1F])"
    unfolding CI_allowed by simp
  then show ?thesis
    unfolding MBusTransportLayer_def OneOf_def
    by (simp only: then_parse_def Int8ub_def list.case sum.case prod.case parsed_def failed_def if_False)
qed

lemma layer_invalid_ci:
  assumes "C = 0x53 \<or> C = 0x73" and "0x1F \<le> unat ci"
  shows "parse MBusDataLinkLayer (0x68 # L # L # 0x68 # C # 0xFF # ci # rest) = Inl ValidationError"
  using assms
  by (simp add: MBusDataLinkLayer_def then_parse_def [of MBusDataLinkHeader]
      then_parse_def [of MBusTransportLayer] header_parse_layout transport_invalid_ci parse_def)

text \<open>
  Claim C8. When the data-link header at the front of the buffer does not parse (bad start
  marker, length bytes that differ, control field other than 0x53 and 0x73, address field
  other than 0xFF), or the frame is fully buffered and its CI value is not allowed,
  \<^verbatim>\<open>read\<close> drops the pending frame, trims the buffer to the first 0x68 found at position 1
  or later (to nothing when there is none), and goes on with the loop.
\<close>

theorem structural_failure_resyncs:
  assumes "buffer r = b0 # b1 # b2 # b3 # b4 # b5 # rest"
    and "b0 \<noteq> 0x68 \<or> b2 \<noteq> b1 \<or> b3 \<noteq> 0x68 \<or> (b4 \<noteq> 0x53 \<and> b4 \<noteq> 0x73) \<or> b5 \<noteq> 0xFF
         \<or> (unat b1 + 6 \<le> length (buffer r) \<and> (\<exists>ci rest'. rest = ci # rest' \<and> 0x1F \<le> unat ci))"
  shows "read_iteration r fr =
           LoopNext (r\<lparr>frame := None, buffer := trim_buffer_to_start_character_or_end (buffer r)\<rparr>) fr
       \<and> read_loop r fr =
           read_loop (r\<lparr>frame := None, buffer := trim_buffer_to_start_character_or_end (buffer r)\<rparr>) fr
       \<and> trim_buffer_to_start_character_or_end (buffer r) =
           dropWhile (\<lambda>x. x \<noteq> 0x68) (b1 # b2 # b3 # b4 # b5 # rest)"
proof -
  have it: "read_iteration r fr = LoopNext (resync r) fr"
  proof (cases "\<exists>e. parse MBusDataLinkHeader (buffer r) = Inl e")
    case True
    then show ?thesis by (intro construct_error_resyncs disjI1)
  next
    case False
    then have ok: "b0 = 0x68" "b2 = b1" "b3 = 0x68" "b4 = 0x53 \<or> b4 = 0x73" "b5 = 0xFF"
      using header_error_iff [of b0 b1 b2 b3 b4 b5 rest] assms(1) by auto
    with assms obtain ci rest' where full: "unat b1 + 6 \<le> length (buffer r)"
      and ci: "rest = ci # rest'" "0x1F \<le> unat ci"
      by auto
    from ok have h: "parse MBusDataLinkHeader (buffer r) =
        Inr \<lparr>Start_Character = 0x68, L_Field = b1, L_Field_copy = b1, C_Field = b4, A_Field = 0xFF\<rparr>"
      using assms(1) header_parse_layout [of b4 b1 rest] by (simp add: parse_def)
    have "parse MBusDataLinkLayer (buffer r) = Inl ValidationError"
      using layer_invalid_ci [of b4 ci b1 rest'] ok ci assms(1) by simp
    then have "try_frame r fr = Inl (ConstructError ValidationError)"
      by (simp add: try_frame_def)
    with h full show ?thesis
      by (intro construct_error_resyncs disjI2) auto
  qed
  have six: "6 \<le> length (buffer r)"
    using assms(1) by simp
  show ?thesis
    using it read_loop_next [OF six it] assms(1)
    by (simp add: resync_def trim_eq START_CHARACTER_def)
qed


theorem structural_failure_resyncs_witness:
  "read_iteration \<lparr>buffer = [0x00, 0x68, 0x05, 0x05, 0x68, 0x53, 0xFF], frame = None, key_hex = ''00''\<rparr> []
     = LoopNext \<lparr>buffer = [0x68, 0x05, 0x05, 0x68, 0x53, 0xFF], frame = None, key_hex = ''00''\<rparr> []
   \<and> read_iteration \<lparr>buffer = [0x68, 0x05, 0x04, 0x68, 0x53, 0xFF, 0x01], frame = None, key_hex = ''00''\<rparr> []
     = LoopNext \<lparr>buffer = [0x68, 0x53, 0xFF, 0x01], frame = None, key_hex = ''00''\<rparr> []
   \<and> read_iteration \<lparr>buffer = [0x68, 0x00, 0x00, 0x68, 0x53, 0xFF, 0x1F], frame = None, key_hex = ''00''\<rparr> []
     = LoopNext \<lparr>buffer = [0x68, 0x53, 0xFF, 0x1F], frame = None, key_hex = ''00''\<rparr> []
   \<and> read_iteration \<lparr>buffer = [0x69, 0x05, 0x05, 0x67, 0x53, 0xFF], frame = None, key_hex = ''00''\<rparr> []
     = LoopNext \<lparr>buffer = [], frame = None, key_hex = ''00''\<rparr> []"
  using
    structural_failure_resyncs [where r = "\<lparr>buffer = [0x00, 0x68, 0x05, 0x05, 0x68, 0x53, 0xFF], frame = None, key_hex = ''00''\<rparr>"
      and ?b0.0 = "0x00" and ?b1.0 = "0x68" and ?b2.0 = "0x05" and ?b3.0 = "0x05" and ?b4.0 = "0x68" and ?b5.0 = "0x53"
      and rest = "[0xFF]" and fr = "[]"]
    structural_failure_resyncs [where r = "\<lparr>buffer = [0x68, 0x05, 0x04, 0x68, 0x53, 0xFF, 0x01], frame = None, key_hex = ''00''\<rparr>"
      and ?b0.0 = "0x68" and ?b1.0 = "0x05" and ?b2.0 = "0x04" and ?b3.0 = "0x68" and ?b4.0 = "0x53" and ?b5.0 = "0xFF"
      and rest = "[0x01]" and fr = "[]"]
    structural_failure_resyncs [where r = "\<lparr>buffer = [0x68, 0x00, 0x00, 0x68, 0x53, 0xFF, 0x1F], frame = None, key_hex = ''00''\<rparr>"
      and ?b0.0 = "0x68" and ?b1.0 = "0x00" and ?b2.0 = "0x00" and ?b3.0 = "0x68" and ?b4.0 = "0x53" and ?b5.0 = "0xFF"
      and rest = "[0x1F]" and fr = "[]"]
    structural_failure_resyncs [where r = "\<lparr>buffer = [0x69, 0x05, 0x05, 0x67, 0x53, 0xFF], frame = None, key_hex = ''00''\<rparr>"
      and ?b0.0 = "0x69" and ?b1.0 = "0x05" and ?b2.0 = "0x05" and ?b3.0 = "0x67" and ?b4.0 = "0x53" and ?b5.0 = "0xFF"
      and rest = "[]" and fr = "[]"]
  by simp

lemma header_parse_value:
  "C = 0x53 \<or> C = 0x73 \<Longrightarrow>
   parse MBusDataLinkHeader (0x68 # L # L # 0x68 # C # 0xFF # rest) =
     Inr \<lparr>Start_Character = 0x68, L_Field = L, L_Field_copy = L, C_Field = C, A_Field = 0xFF\<rparr>"
  by (simp add: parse_def header_parse_layout)

text \<open>
  Claim C7. When a fully buffered physical frame fails its checksum, \<^verbatim>\<open>read\<close> drops the
  pending frame, removes the whole physical frame (\<open>L + 6\<close> bytes) from the buffer and
  goes on with the bytes that follow, so a valid frame right after it is still read.
\<close>

theorem checksum_error_trims:
  assumes "C = 0x53 \<or> C = 0x73" and "unat CI < 0x1F" and "5 \<le> unat L"
    and "length d = unat L - 5"
    and "unat c \<noteq> (sum_list (map unat d) + unat C + unat (0xFF :: byte) + unat CI
            + unat (0x01 :: byte) + unat (0x67 :: byte)) mod 256"
    and "buffer r = [0x68, L, L, 0x68, C, 0xFF, CI, 0x01, 0x67] @ d @ c # stop # rest"
  shows "read_iteration r fr = LoopNext (r\<lparr>frame := None, buffer := rest\<rparr>) fr
       \<and> read_loop r fr = read_loop (r\<lparr>frame := None, buffer := rest\<rparr>) fr
       \<and> length (buffer r) = (unat L + 6) + length rest"
proof -
  have len: "length (buffer r) = (unat L + 6) + length rest"
    using assms(3,4,6) by simp
  let ?p = "[0x68, L, L, 0x68, C, 0xFF, CI, 0x01, 0x67] @ d @ [c, stop]"
  have "buffer r = ?p @ rest"
    unfolding assms(6) by simp
  moreover have "length ?p = unat L + 6"
    using assms(3,4) by simp
  ultimately have dr: "drop (unat L + 6) (buffer r) = rest"
    by (metis append_eq_conv_conj)
  have h: "parse MBusDataLinkHeader (buffer r) =
      Inr \<lparr>Start_Character = 0x68, L_Field = L, L_Field_copy = L, C_Field = C, A_Field = 0xFF\<rparr>"
    using assms(1) unfolding assms(6) by (simp add: header_parse_value)
  have "parse MBusDataLinkLayer (buffer r) = Inl ChecksumError"
    unfolding assms(6) using layer_parse_layout [OF assms(1-4), of c stop rest] assms(5) by simp
  then have t: "try_frame r fr = Inl (ConstructError ChecksumError)"
    by (simp add: try_frame_def)
  have it: "read_iteration r fr = LoopNext (r\<lparr>frame := None, buffer := rest\<rparr>) fr"
    using h t len dr by (simp add: read_iteration_def Let_def trim_buffer_to_pos_def)
  have "6 \<le> length (buffer r)" using len by simp
  from read_loop_next [OF this it] it len show ?thesis by simp
qed


lemmas reader_defs = read_iteration_def try_frame_def accumulate_def complete_def resync_def
  trim_buffer_to_pos_def trim_buffer_to_start_character_or_end_def bytes_find_def
  DlmsTinetzFrame_init_def frame_extend_def is_valid_def hex_digit_def START_CHARACTER_def
  MBusDataLinkHeader_def MBusTransportLayer_def MBusDataLinkLayer_def DLMSApplicationLayer_def
  checksum_bytes_def hashfunc_def

lemma good_frame:
  "read_loop \<lparr>buffer = [0x68, 0x17, 0x17, 0x68, 0x53, 0xFF, 0x10, 0x01, 0x67,
        0xDB, 0x08, 1, 2, 3, 4, 5, 6, 7, 8, 0x07, 0x21, 0, 0, 0, 1, 0xAB, 0xCD, 0x72, 0x16],
      frame = None, key_hex = ''00''\<rparr> [] =
   Inr (\<lparr>buffer = [], frame = None, key_hex = ''00''\<rparr>,
     [\<lparr>f_key = [0], f_length = 2, f_system_title = [1, 2, 3, 4, 5, 6, 7, 8],
       f_frame_counter = [0, 0, 0, 1], f_frame_data = [0xAB, 0xCD]\<rparr>])"
  by code_simp

theorem checksum_error_trims_witness:
  "read_loop \<lparr>buffer = [0x68, 0x07, 0x07, 0x68, 0x53, 0xFF, 0x11, 0x01, 0x67, 0xAA, 0xBB, 0x31, 0x16,
        0x68, 0x17, 0x17, 0x68, 0x53, 0xFF, 0x10, 0x01, 0x67,
        0xDB, 0x08, 1, 2, 3, 4, 5, 6, 7, 8, 0x07, 0x21, 0, 0, 0, 1, 0xAB, 0xCD, 0x72, 0x16],
      frame = Some \<lparr>f_key = [0], f_length = 9, f_system_title = [], f_frame_counter = [],
        f_frame_data = [1]\<rparr>, key_hex = ''00''\<rparr> [] =
   Inr (\<lparr>buffer = [], frame = None, key_hex = ''00''\<rparr>,
     [\<lparr>f_key = [0], f_length = 2, f_system_title = [1, 2, 3, 4, 5, 6, 7, 8],
       f_frame_counter = [0, 0, 0, 1], f_frame_data = [0xAB, 0xCD]\<rparr>])"
proof -
  let ?good = "[0x68, 0x17, 0x17, 0x68, 0x53, 0xFF, 0x10, 0x01, 0x67,
        0xDB, 0x08, 1, 2, 3, 4, 5, 6, 7, 8, 0x07, 0x21, 0, 0, 0, 1, 0xAB, 0xCD, 0x72, 0x16] :: byte list"
  let ?r = "\<lparr>buffer = [0x68, 0x07, 0x07, 0x68, 0x53, 0xFF, 0x11, 0x01, 0x67, 0xAA, 0xBB, 0x31, 0x16] @ ?good,
      frame = Some \<lparr>f_key = [0], f_length = 9, f_system_title = [], f_frame_counter = [],
        f_frame_data = [1]\<rparr>, key_hex = ''00''\<rparr>"
  have "read_loop ?r [] = read_loop (?r\<lparr>frame := None, buffer := ?good\<rparr>) []"
    using checksum_error_trims [where r = ?r and C = "0x53" and CI = "0x11" and L = "0x07"
        and d = "[0xAA, 0xBB]" and c = "0x31" and stop = "0x16" and rest = ?good and fr = "[]"]
    by simp
  then show ?thesis
    by (simp add: good_frame)
qed

section \<open>Termination of read\<close>

text \<open>
  The same loop with a bound on the number of times its guard is evaluated: \<open>None\<close> when
  the bound is reached before the loop has returned.
\<close>

fun read_loop_bounded ::
  "nat \<Rightarrow> reader \<Rightarrow> DlmsTinetzFrame list \<Rightarrow> (py_exception + (reader \<times> DlmsTinetzFrame list)) option" where
  "read_loop_bounded 0 r frames_received = None"
| "read_loop_bounded (Suc n) r frames_received =
     (if 6 \<le> length (buffer r) then
        (case read_iteration r frames_received of
           LoopBreak \<Rightarrow> Some (Inr (r, frames_received))
         | LoopNext r' frames' \<Rightarrow> read_loop_bounded n r' frames'
         | LoopRaise e \<Rightarrow> Some (Inl e))
      else Some (Inr (r, frames_received)))"

lemma read_loop_bounded_enough:
  "length (buffer r) < n \<Longrightarrow> read_loop_bounded n r fr = Some (read_loop r fr)"
proof (induction n arbitrary: r fr)
  case 0
  then show ?case by simp
next
  case (Suc n)
  show ?case
  proof (cases "6 \<le> length (buffer r)")
    case False
    then show ?thesis by (simp add: read_loop_short)
  next
    case True
    show ?thesis
    proof (cases "read_iteration r fr")
      case LoopBreak
      with True show ?thesis by (simp add: read_loop_break)
    next
      case (LoopNext r' fr')
      from read_iteration_shorter [OF True LoopNext] Suc.prems
      have "length (buffer r') < n" by simp
      then have "read_loop_bounded n r' fr' = Some (read_loop r' fr')"
        by (rule Suc.IH)
      with True LoopNext show ?thesis
        by (simp add: read_loop_next [OF True LoopNext])
    next
      case (LoopRaise e)
      with True show ?thesis by (subst read_loop.simps) simp
    qed
  qed
qed

text \<open>
  Claim C10. Every call of \<^verbatim>\<open>read\<close> returns: the loop is over after at most as many
  evaluations of its guard as the buffer has bytes, plus one. An iteration that does not
  leave the loop leaves a strictly shorter buffer, because a consumed physical frame takes
  \<open>L + 6\<close> bytes, at least 6, off the buffer, and the resynchronising trim, which
  searches from position 1, takes at least one byte off a buffer that is not empty.
\<close>

theorem read_terminates:
  "read_loop_bounded (Suc (length (buffer r @ data_chunk))) (r\<lparr>buffer := buffer r @ data_chunk\<rparr>) []
     = Some (read r data_chunk)
   \<and> (6 \<le> length (buffer r) \<and> read_iteration r fr = LoopNext r' fr' \<longrightarrow>
        length (buffer r') < length (buffer r))
   \<and> (unat l + 6 \<le> length b \<longrightarrow> length (trim_buffer_to_pos b (unat l + 6)) + 6 \<le> length b)
   \<and> (b \<noteq> [] \<longrightarrow> length (trim_buffer_to_start_character_or_end b) < length b)"
  using read_loop_bounded_enough [of "r\<lparr>buffer := buffer r @ data_chunk\<rparr>" "Suc (length (buffer r @ data_chunk))" "[]"]
    read_iteration_shorter [of r fr r' fr'] trim_start_shorter [of b]
  by (simp add: read_def trim_buffer_to_pos_def)

theorem read_terminates_witness:
  "read_loop_bounded 43 \<lparr>buffer = [0x68, 0x07, 0x07, 0x68, 0x53, 0xFF, 0x11, 0x01, 0x67, 0xAA, 0xBB, 0x31, 0x16,
        0x68, 0x17, 0x17, 0x68, 0x53, 0xFF, 0x10, 0x01, 0x67,
        0xDB, 0x08, 1, 2, 3, 4, 5, 6, 7, 8, 0x07, 0x21, 0, 0, 0, 1, 0xAB, 0xCD, 0x72, 0x16],
      frame = None, key_hex = ''00''\<rparr> [] =
   Some (Inr (\<lparr>buffer = [], frame = None, key_hex = ''00''\<rparr>,
     [\<lparr>f_key = [0], f_length = 2, f_system_title = [1, 2, 3, 4, 5, 6, 7, 8],
       f_frame_counter = [0, 0, 0, 1], f_frame_data = [0xAB, 0xCD]\<rparr>]))
   \<and> length (buffer \<lparr>buffer = [0x68, 0x17, 0x17, 0x68, 0x53, 0xFF, 0x10, 0x01, 0x67,
        0xDB, 0x08, 1, 2, 3, 4, 5, 6, 7, 8, 0x07, 0x21, 0, 0, 0, 1, 0xAB, 0xCD, 0x72, 0x16],
      frame = None, key_hex = ''00''\<rparr>) < 42
   \<and> length (trim_buffer_to_pos [0x68, 0x01, 0x01, 0x68, 0x53, 0xFF, 0x00 :: byte] 7) + 6 \<le> 7
   \<and> length (trim_buffer_to_start_character_or_end [0x00, 0x68, 0x01]) < 3"
proof -
  let ?bad = "[0x68, 0x07, 0x07, 0x68, 0x53, 0xFF, 0x11, 0x01, 0x67, 0xAA, 0xBB, 0x31, 0x16] :: byte list"
  let ?good = "[0x68, 0x17, 0x17, 0x68, 0x53, 0xFF, 0x10, 0x01, 0x67,
        0xDB, 0x08, 1, 2, 3, 4, 5, 6, 7, 8, 0x07, 0x21, 0, 0, 0, 1, 0xAB, 0xCD, 0x72, 0x16] :: byte list"
  let ?r = "\<lparr>buffer = [], frame = None, key_hex = ''00''\<rparr>"
  let ?r1 = "\<lparr>buffer = ?bad @ ?good, frame = None, key_hex = ''00''\<rparr>"
  let ?r2 = "\<lparr>buffer = ?good, frame = None, key_hex = ''00''\<rparr>"
  note t = read_terminates [where r = ?r1 and data_chunk = "[]" and fr = "[]"
        and r' = ?r2 and fr' = "[]" and l = "0x01" and b = "[0x68, 0x01, 0x01, 0x68, 0x53, 0xFF, 0x00]"]
  note t' = read_terminates [where r = ?r1 and data_chunk = "[]" and fr = "[]"
        and r' = ?r2 and fr' = "[]" and l = "0x01" and b = "[0x00, 0x68, 0x01]"]
  have it: "read_iteration ?r1 [] = LoopNext ?r2 []"
    by code_simp
  have rd: "read ?r1 [] = Inr (\<lparr>buffer = [], frame = None, key_hex = ''00''\<rparr>,
     [\<lparr>f_key = [0], f_length = 2, f_system_title = [1, 2, 3, 4, 5, 6, 7, 8],
       f_frame_counter = [0, 0, 0, 1], f_frame_data = [0xAB, 0xCD]\<rparr>])"
    by code_simp
  have n: "Suc (length (buffer ?r1 @ [])) = 43" and u: "?r1\<lparr>buffer := buffer ?r1 @ []\<rparr> = ?r1"
    by simp_all
  have c1: "read_loop_bounded 43 ?r1 [] = Some (read ?r1 [])"
    using t [THEN conjunct1] unfolding n u .
  have c2: "length (buffer ?r2) < 42"
    using t [THEN conjunct2, THEN conjunct1] it by simp
  have c3: "length (trim_buffer_to_pos [0x68, 0x01, 0x01, 0x68, 0x53, 0xFF, 0x00 :: byte] 7) + 6 \<le> 7"
    using t [THEN conjunct2, THEN conjunct2, THEN conjunct1] by simp
  have c4: "length (trim_buffer_to_start_character_or_end [0x00, 0x68, 0x01]) < 3"
    using t' [THEN conjunct2, THEN conjunct2, THEN conjunct2] by simp
  from c1 [unfolded rd] c2 c3 c4 show ?thesis
    by (simp only: append_Cons append_Nil)
qed

section \<open>Emission of frames\<close>

lemma then_parse_Inr_iff:
  "then_parse p f s = Inr (b, rest) \<longleftrightarrow> (\<exists>a r. p s = Inr (a, r) \<and> f a r = Inr (b, rest))"
  by (auto simp: then_parse_def split: sum.splits)

lemma parse_Inr_iff: "parse p s = Inr a \<longleftrightarrow> (\<exists>rest. p s = Inr (a, rest))"
  by (auto simp: parse_def split: sum.splits)

lemma Bytes_Inr:
  "Bytes (int k - 5) s = Inr (d, r) \<Longrightarrow> 5 \<le> k \<and> length s = (k - 5) + length r \<and> s = d @ r"
  by (auto simp: Bytes_def split: if_splits)

lemma layer_parse_ok:
  assumes "parse MBusDataLinkLayer b = Inr m"
  shows "parse MBusDataLinkHeader b = Inr (Header m) \<and> unat (L_Field (Header m)) + 6 \<le> length b"
proof -
  from assms obtain h r1 t r2 d r3 c r4 stop r5 where
    h: "MBusDataLinkHeader b = Inr (h, r1)" and t: "MBusTransportLayer r1 = Inr (t, r2)"
    and d: "Bytes (int (unat (L_Field h)) - 5) r2 = Inr (d, r3)"
    and c: "Checksum (checksum_bytes h t d) r3 = Inr (c, r4)"
    and s: "Const 0x16 r4 = Inr (stop, r5)"
    and m: "m = \<lparr>Header = h, TransportLayer = t, Data = d, Checksum_Field = c, Stop_Character = stop\<rparr>"
    unfolding parse_Inr_iff MBusDataLinkLayer_def then_parse_Inr_iff parsed_def by auto
  from h have lb: "length b = 6 + length r1"
    unfolding header_parse_iff by auto
  from t have l1: "length r1 = 3 + length r2"
    unfolding transport_parse_iff by auto
  from Bytes_Inr [OF d] have l2: "5 \<le> unat (L_Field h)" "length r2 = (unat (L_Field h) - 5) + length r3"
    by blast+
  from c have l3: "length r3 = 1 + length r4"
    by (auto simp: Checksum_def then_parse_def Int8ub_def parsed_def failed_def split: list.splits if_splits)
  from s have l4: "length r4 = 1 + length r5"
    by (auto simp: Const_def then_parse_def Int8ub_def parsed_def failed_def split: list.splits if_splits)
  from lb l1 l2 l3 l4 have "unat (L_Field h) + 6 \<le> length b" by simp
  with h m show ?thesis by (simp add: parse_def)
qed

lemma complete_cases:
  "complete r fr ci = (r', fr') \<Longrightarrow>
   fr' = fr \<or> (\<exists>f. frame r = Some f \<and> ci AND 0x10 = 0x10 \<and> is_valid f \<and> fr' = fr @ [f])"
  by (auto simp: complete_def split: option.splits if_splits)

lemma read_iteration_emits:
  assumes "read_iteration r fr = LoopNext r' fr'" and "fr' \<noteq> fr"
  shows "\<exists>m r1 f. parse MBusDataLinkLayer (buffer r) = Inr m \<and> accumulate r m = Inr r1 \<and>
           frame r1 = Some f \<and> CI_Field (TransportLayer m) AND 0x10 = 0x10 \<and> is_valid f \<and>
           fr' = fr @ [f]"
proof -
  from assms obtain r1 where tf: "try_frame r fr = Inr (r1, fr')"
    by (auto simp: read_iteration_def Let_def split: sum.splits if_splits py_exception.splits
        construct_error.splits)
  then obtain m r0 where m: "parse MBusDataLinkLayer (buffer r) = Inr m"
    and a: "accumulate r m = Inr r0"
    and c: "complete r0 fr (CI_Field (TransportLayer m)) = (r1, fr')"
    by (auto simp: try_frame_def split: sum.splits)
  from complete_cases [OF c] assms(2) m a show ?thesis by blast
qed

lemma read_iteration_valid:
  assumes "read_iteration r fr = LoopNext r' fr'" and "\<forall>f\<in>set fr. is_valid f"
  shows "\<forall>f\<in>set fr'. is_valid f"
proof (cases "fr' = fr")
  case True
  with assms(2) show ?thesis by simp
next
  case False
  from read_iteration_emits [OF assms(1) False] assms(2) show ?thesis by auto
qed

lemma read_loop_valid:
  "read_loop r fr = Inr (r', fr') \<Longrightarrow> \<forall>f\<in>set fr. is_valid f \<Longrightarrow> \<forall>f\<in>set fr'. is_valid f"
proof (induction r fr rule: read_loop.induct)
  case (1 r fr)
  show ?case
  proof (cases "6 \<le> length (buffer r)")
    case False
    with "1.prems" show ?thesis by (simp add: read_loop_short)
  next
    case True
    show ?thesis
    proof (cases "read_iteration r fr")
      case LoopBreak
      with "1.prems" show ?thesis by (simp add: read_loop_break)
    next
      case (LoopNext r1 fr1)
      from "1.prems"(1) have "read_loop r1 fr1 = Inr (r', fr')"
        by (simp add: read_loop_next [OF True LoopNext])
      moreover have "\<forall>f\<in>set fr1. is_valid f"
        using read_iteration_valid [OF LoopNext "1.prems"(2)] .
      ultimately show ?thesis
        using "1.IH" [OF True LoopNext] by blast
    next
      case (LoopRaise e)
      with True "1.prems"(1) show ?thesis by (subst (asm) read_loop.simps) simp
    qed
  qed
qed

lemma last_segment_iteration:
  assumes "parse MBusDataLinkLayer (buffer r) = Inr m" and "accumulate r m = Inr r1"
    and "frame r1 = Some f" and "CI_Field (TransportLayer m) AND 0x10 = 0x10"
  shows "read_iteration r fr =
     LoopNext (r1\<lparr>frame := None, buffer := drop (unat (L_Field (Header m)) + 6) (buffer r)\<rparr>)
       (if is_valid f then fr @ [f] else fr)"
proof -
  from layer_parse_ok [OF assms(1)]
  have h: "parse MBusDataLinkHeader (buffer r) = Inr (Header m)"
    and full: "unat (L_Field (Header m)) + 6 \<le> length (buffer r)" by simp_all
  have "try_frame r fr = Inr (r1\<lparr>frame := None\<rparr>, if is_valid f then fr @ [f] else fr)"
    using assms by (simp add: try_frame_def complete_def)
  with h full accumulate_buffer [OF assms(2)] show ?thesis
    by (simp add: read_iteration_def trim_buffer_to_pos_def)
qed

text \<open>
  Claim C2. A frame is emitted exactly when a physical frame with bit 0x10 of its CI field
  set is consumed while a frame is pending (after this segment has been accumulated) and
  the accumulated ciphertext is as long as declared. When the lengths differ the pending
  frame is dropped: the iteration goes on with no pending frame, the list of frames
  unchanged and nothing raised. Hence every frame that \<^verbatim>\<open>read\<close> returns has exactly its
  declared length.
\<close>

theorem emitted_iff_valid:
  "(parse MBusDataLinkLayer (buffer r) = Inr m \<and> accumulate r m = Inr r1 \<and> frame r1 = Some f \<and>
      CI_Field (TransportLayer m) AND 0x10 = 0x10 \<longrightarrow>
      read_iteration r fr =
        LoopNext (r1\<lparr>frame := None, buffer := drop (unat (L_Field (Header m)) + 6) (buffer r)\<rparr>)
          (if is_valid f then fr @ [f] else fr))
   \<and> (read_iteration r fr = LoopNext r' fr' \<and> fr' \<noteq> fr \<longrightarrow>
        (\<exists>m r1 f. parse MBusDataLinkLayer (buffer r) = Inr m \<and> accumulate r m = Inr r1 \<and>
           frame r1 = Some f \<and> CI_Field (TransportLayer m) AND 0x10 = 0x10 \<and> is_valid f \<and>
           fr' = fr @ [f]))
   \<and> (read r0 data_chunk = Inr (r2, frames) \<longrightarrow>
        (\<forall>f\<in>set frames. int (length (f_frame_data f)) = f_length f))"
proof (intro conjI impI)
  assume "parse MBusDataLinkLayer (buffer r) = Inr m \<and> accumulate r m = Inr r1 \<and> frame r1 = Some f \<and>
      CI_Field (TransportLayer m) AND 0x10 = 0x10"
  then show "read_iteration r fr =
        LoopNext (r1\<lparr>frame := None, buffer := drop (unat (L_Field (Header m)) + 6) (buffer r)\<rparr>)
          (if is_valid f then fr @ [f] else fr)"
    using last_segment_iteration by blast
next
  assume "read_iteration r fr = LoopNext r' fr' \<and> fr' \<noteq> fr"
  then show "\<exists>m r1 f. parse MBusDataLinkLayer (buffer r) = Inr m \<and> accumulate r m = Inr r1 \<and>
           frame r1 = Some f \<and> CI_Field (TransportLayer m) AND 0x10 = 0x10 \<and> is_valid f \<and>
           fr' = fr @ [f]"
    using read_iteration_emits by blast
next
  assume "read r0 data_chunk = Inr (r2, frames)"
  then have "\<forall>f\<in>set frames. is_valid f"
    unfolding read_def using read_loop_valid by fastforce
  then show "\<forall>f\<in>set frames. int (length (f_frame_data f)) = f_length f"
    by (simp add: is_valid_def)
qed


theorem emitted_iff_valid_witness:
  "read_iteration \<lparr>buffer = [0x68, 0x17, 0x17, 0x68, 0x53, 0xFF, 0x10, 0x01, 0x67,
        0xDB, 0x08, 1, 2, 3, 4, 5, 6, 7, 8, 0x07, 0x21, 0, 0, 0, 1, 0xAB, 0xCD, 0x72, 0x16],
      frame = None, key_hex = ''00''\<rparr> [] =
     LoopNext \<lparr>buffer = [], frame = None, key_hex = ''00''\<rparr>
       [\<lparr>f_key = [0], f_length = 2, f_system_title = [1, 2, 3, 4, 5, 6, 7, 8],
         f_frame_counter = [0, 0, 0, 1], f_frame_data = [0xAB, 0xCD]\<rparr>]
   \<and> read_iteration \<lparr>buffer = [0x68, 0x17, 0x17, 0x68, 0x53, 0xFF, 0x10, 0x01, 0x67,
        0xDB, 0x08, 1, 2, 3, 4, 5, 6, 7, 8, 0x08, 0x21, 0, 0, 0, 1, 0xAB, 0xCD, 0x73, 0x16],
      frame = None, key_hex = ''00''\<rparr> [] =
     LoopNext \<lparr>buffer = [], frame = None, key_hex = ''00''\<rparr> []
   \<and> (\<exists>m r1 f. parse MBusDataLinkLayer [0x68, 0x17, 0x17, 0x68, 0x53, 0xFF, 0x10, 0x01, 0x67,
        0xDB, 0x08, 1, 2, 3, 4, 5, 6, 7, 8, 0x07, 0x21, 0, 0, 0, 1, 0xAB, 0xCD, 0x72, 0x16] = Inr m \<and>
        accumulate \<lparr>buffer = [0x68, 0x17, 0x17, 0x68, 0x53, 0xFF, 0x10, 0x01, 0x67,
        0xDB, 0x08, 1, 2, 3, 4, 5, 6, 7, 8, 0x07, 0x21, 0, 0, 0, 1, 0xAB, 0xCD, 0x72, 0x16],
          frame = None, key_hex = ''00''\<rparr> m = Inr r1 \<and>
        frame r1 = Some f \<and> CI_Field (TransportLayer m) AND 0x10 = 0x10 \<and> is_valid f)
   \<and> int (length (f_frame_data \<lparr>f_key = [0], f_length = 2, f_system_title = [1, 2, 3, 4, 5, 6, 7, 8],
         f_frame_counter = [0, 0, 0, 1], f_frame_data = [0xAB, 0xCD]\<rparr>)) =
       f_length \<lparr>f_key = [0], f_length = 2, f_system_title = [1, 2, 3, 4, 5, 6, 7, 8],
         f_frame_counter = [0, 0, 0, 1], f_frame_data = [0xAB, 0xCD]\<rparr>"
proof -
  let ?data = "[0xDB, 0x08, 1, 2, 3, 4, 5, 6, 7, 8, 0x07, 0x21, 0, 0, 0, 1, 0xAB, 0xCD] :: byte list"
  let ?data' = "[0xDB, 0x08, 1, 2, 3, 4, 5, 6, 7, 8, 0x08, 0x21, 0, 0, 0, 1, 0xAB, 0xCD] :: byte list"
  let ?good = "[0x68, 0x17, 0x17, 0x68, 0x53, 0xFF, 0x10, 0x01, 0x67,
        0xDB, 0x08, 1, 2, 3, 4, 5, 6, 7, 8, 0x07, 0x21, 0, 0, 0, 1, 0xAB, 0xCD, 0x72, 0x16] :: byte list"
  let ?short = "[0x68, 0x17, 0x17, 0x68, 0x53, 0xFF, 0x10, 0x01, 0x67,
        0xDB, 0x08, 1, 2, 3, 4, 5, 6, 7, 8, 0x08, 0x21, 0, 0, 0, 1, 0xAB, 0xCD, 0x73, 0x16] :: byte list"
  let ?h = "\<lparr>Start_Character = 0x68, L_Field = 0x17, L_Field_copy = 0x17, C_Field = 0x53, A_Field = 0xFF\<rparr>"
  let ?t = "\<lparr>CI_Field = 0x10, STSAP = 0x01, DTSAP = 0x67\<rparr>"
  let ?m = "\<lparr>Header = ?h, TransportLayer = ?t, Data = ?data, Checksum_Field = 0x72, Stop_Character = 0x16\<rparr>"
  let ?m' = "\<lparr>Header = ?h, TransportLayer = ?t, Data = ?data', Checksum_Field = 0x73, Stop_Character = 0x16\<rparr>"
  let ?f = "\<lparr>f_key = [0], f_length = 2, f_system_title = [1, 2, 3, 4, 5, 6, 7, 8],
         f_frame_counter = [0, 0, 0, 1], f_frame_data = [0xAB, 0xCD]\<rparr>"
  let ?f' = "\<lparr>f_key = [0], f_length = 3, f_system_title = [1, 2, 3, 4, 5, 6, 7, 8],
         f_frame_counter = [0, 0, 0, 1], f_frame_data = [0xAB, 0xCD]\<rparr>"
  let ?r = "\<lparr>buffer = ?good, frame = None, key_hex = ''00''\<rparr>"
  let ?r' = "\<lparr>buffer = ?short, frame = None, key_hex = ''00''\<rparr>"
  let ?r1 = "\<lparr>buffer = ?good, frame = Some ?f, key_hex = ''00''\<rparr>"
  let ?r1' = "\<lparr>buffer = ?short, frame = Some ?f', key_hex = ''00''\<rparr>"
  let ?e = "\<lparr>buffer = [], frame = None, key_hex = ''00''\<rparr>"
  have p: "parse MBusDataLinkLayer (buffer ?r) = Inr ?m \<and> accumulate ?r ?m = Inr ?r1 \<and>
      frame ?r1 = Some ?f \<and> CI_Field (TransportLayer ?m) AND 0x10 = 0x10"
    by code_simp
  have p': "parse MBusDataLinkLayer (buffer ?r') = Inr ?m' \<and> accumulate ?r' ?m' = Inr ?r1' \<and>
      frame ?r1' = Some ?f' \<and> CI_Field (TransportLayer ?m') AND 0x10 = 0x10"
    by code_simp
  have v: "is_valid ?f" "\<not> is_valid ?f'"
    by (simp_all add: is_valid_def)
  have rd: "read ?e ?good = Inr (?e, [?f])"
    by code_simp
  note t = emitted_iff_valid [where r = ?r and m = ?m and ?r1.0 = ?r1 and f = ?f and fr = "[]"
      and r' = ?e and fr' = "[?f]" and ?r0.0 = ?e and data_chunk = ?good and ?r2.0 = ?e and frames = "[?f]"]
  note t' = emitted_iff_valid [where r = ?r' and m = ?m' and ?r1.0 = ?r1' and f = ?f' and fr = "[]"
      and r' = ?e and fr' = "[?f]" and ?r0.0 = ?e and data_chunk = ?good and ?r2.0 = ?e and frames = "[?f]"]
  have c1: "read_iteration ?r [] = LoopNext ?e [?f]"
    using t [THEN conjunct1] p v by simp
  have c2: "read_iteration ?r' [] = LoopNext ?e []"
    using t' [THEN conjunct1] p' v by simp
  have c3: "\<exists>m r1 f. parse MBusDataLinkLayer ?good = Inr m \<and> accumulate ?r m = Inr r1 \<and>
        frame r1 = Some f \<and> CI_Field (TransportLayer m) AND 0x10 = 0x10 \<and> is_valid f"
    using t [THEN conjunct2, THEN conjunct1] c1 by auto
  have c4: "int (length (f_frame_data ?f)) = f_length ?f"
    using t [THEN conjunct2, THEN conjunct2] rd by simp
  from c1 c2 c3 c4 show ?thesis
    by (intro conjI)
qed

section \<open>Independence of chunk boundaries\<close>

definition hunt :: "byte list \<Rightarrow> byte list" where
  "hunt b = dropWhile (\<lambda>x. x \<noteq> START_CHARACTER) b"

definition same_stream :: "reader \<Rightarrow> reader \<Rightarrow> bool" where
  "same_stream r1 r2 \<longleftrightarrow>
     r1 = r2 \<or>
     (frame r1 = None \<and> frame r2 = None \<and> key_hex r1 = key_hex r2 \<and>
      hunt (buffer r1) = hunt (buffer r2))"

definition same_result ::
  "py_exception + (reader \<times> DlmsTinetzFrame list) \<Rightarrow>
   py_exception + (reader \<times> DlmsTinetzFrame list) \<Rightarrow> bool" where
  "same_result a b \<longleftrightarrow> (\<exists>r1 r2 fs. a = Inr (r1, fs) \<and> b = Inr (r2, fs) \<and> same_stream r1 r2)"

lemma hunt_idem: "hunt (hunt b) = hunt b"
  unfolding hunt_def by (induction b) auto

lemma hunt_append: "hunt (a @ x) = (if hunt a = [] then hunt x else hunt a @ x)"
  unfolding hunt_def by (induction a) auto

lemma hunt_hunt_append: "hunt (hunt a @ x) = hunt (a @ x)"
  unfolding hunt_def by (induction a) auto

lemma hunt_length: "length (hunt b) \<le> length b"
  unfolding hunt_def by (rule length_dropWhile_le)

lemma hunt_Cons: "hunt (x # b) = (if x = START_CHARACTER then x # b else hunt b)"
  unfolding hunt_def by simp

lemma trim_hunt: "trim_buffer_to_start_character_or_end b = hunt (tl b)"
  by (simp add: trim_eq hunt_def)

lemma same_stream_refl: "same_stream r r"
  by (simp add: same_stream_def)

lemma same_stream_sym: "same_stream r1 r2 \<Longrightarrow> same_stream r2 r1"
  by (auto simp: same_stream_def)

lemma same_stream_trans: "same_stream r1 r2 \<Longrightarrow> same_stream r2 r3 \<Longrightarrow> same_stream r1 r3"
  by (auto simp: same_stream_def)

lemma same_stream_append:
  "same_stream r1 r2 \<Longrightarrow>
   same_stream (r1\<lparr>buffer := buffer r1 @ x\<rparr>) (r2\<lparr>buffer := buffer r2 @ x\<rparr>)"
  by (auto simp: same_stream_def hunt_append)

lemma same_result_sym: "same_result a b \<Longrightarrow> same_result b a"
  by (auto simp: same_result_def dest: same_stream_sym)

lemma same_result_trans: "same_result a b \<Longrightarrow> same_result b c \<Longrightarrow> same_result a c"
  by (auto simp: same_result_def dest: same_stream_trans)

subsection \<open>A key that is hexadecimal never raises\<close>

lemma accumulate_no_raise:
  "unhexlify (key_hex r) \<noteq> None \<Longrightarrow> accumulate r m \<noteq> Inl BinasciiError"
  by (auto simp: accumulate_def Let_def DlmsTinetzFrame_init_def split: sum.splits option.splits)

lemma accumulate_key: "accumulate r m = Inr r1 \<Longrightarrow> key_hex r1 = key_hex r"
  by (auto simp: accumulate_def Let_def split: if_splits sum.splits)

lemma complete_key: "key_hex (fst (complete r fr ci)) = key_hex r"
  by (simp add: complete_def split: option.splits)

lemma try_frame_no_raise:
  "unhexlify (key_hex r) \<noteq> None \<Longrightarrow> try_frame r fr \<noteq> Inl BinasciiError"
  using accumulate_no_raise [of r]
  by (auto simp: try_frame_def split: sum.splits)

lemma try_frame_key: "try_frame r fr = Inr (r1, fr1) \<Longrightarrow> key_hex r1 = key_hex r"
  by (auto simp: try_frame_def split: sum.splits)
    (metis accumulate_key complete_key fst_conv)

lemma read_iteration_no_raise:
  "unhexlify (key_hex r) \<noteq> None \<Longrightarrow> read_iteration r fr \<noteq> LoopRaise e"
  using try_frame_no_raise [of r fr]
  by (auto simp: read_iteration_def Let_def split: sum.splits py_exception.splits construct_error.splits)

lemma read_iteration_key:
  "read_iteration r fr = LoopNext r' fr' \<Longrightarrow> key_hex r' = key_hex r"
  by (auto simp: read_iteration_def Let_def resync_def
      split: sum.splits if_splits py_exception.splits construct_error.splits dest!: try_frame_key)

lemma read_loop_returns:
  "unhexlify (key_hex r) \<noteq> None \<Longrightarrow>
   \<exists>r' fr'. read_loop r fr = Inr (r', fr') \<and> key_hex r' = key_hex r"
proof (induction r fr rule: read_loop.induct)
  case (1 r fr)
  show ?case
  proof (cases "6 \<le> length (buffer r)")
    case False
    then show ?thesis by (simp add: read_loop_short)
  next
    case True
    show ?thesis
    proof (cases "read_iteration r fr")
      case LoopBreak
      then show ?thesis by (simp add: read_loop_break)
    next
      case (LoopNext r1 fr1)
      have k: "key_hex r1 = key_hex r"
        using LoopNext by (rule read_iteration_key)
      with "1.prems" have "unhexlify (key_hex r1) \<noteq> None" by simp
      from "1.IH" [OF True LoopNext this] k show ?thesis
        by (simp add: read_loop_next [OF True LoopNext])
    next
      case (LoopRaise e)
      with read_iteration_no_raise [OF "1.prems"] show ?thesis by blast
    qed
  qed
qed

lemma same_result_refl:
  "unhexlify (key_hex r) \<noteq> None \<Longrightarrow> same_result (read_loop r fr) (read_loop r fr)"
  using read_loop_returns [of r fr] by (auto simp: same_result_def same_stream_refl)

subsection \<open>Garbage in front of a start character, while hunting\<close>

lemma header_bad_start:
  "b \<noteq> [] \<Longrightarrow> hd b \<noteq> START_CHARACTER \<Longrightarrow> \<exists>e. parse MBusDataLinkHeader b = Inl e"
  by (cases "parse MBusDataLinkHeader b")
    (auto simp: parse_Inr_iff header_parse_iff START_CHARACTER_def)

lemma hunting_loop:
  assumes "frame r = None" and "unhexlify (key_hex r) \<noteq> None"
  shows "same_result (read_loop r fr) (read_loop (r\<lparr>buffer := hunt (buffer r)\<rparr>) fr)"
proof (cases "hunt (buffer r) = buffer r")
  case True
  with same_result_refl [OF assms(2)] show ?thesis by simp
next
  case False
  then obtain x xs where b: "buffer r = x # xs" and x: "x \<noteq> START_CHARACTER"
    by (cases "buffer r") (auto simp: hunt_Cons hunt_def split: if_splits)
  then have ne: "buffer r \<noteq> []" and hd: "hd (buffer r) \<noteq> START_CHARACTER"
    and tl: "hunt (buffer r) = hunt (tl (buffer r))"
    by (simp_all add: hunt_Cons)
  show ?thesis
  proof (cases "6 \<le> length (buffer r)")
    case True
    from header_bad_start [OF ne hd]
    have "read_iteration r fr = LoopNext (resync r) fr"
      by (intro construct_error_resyncs disjI1)
    moreover have "resync r = r\<lparr>buffer := hunt (buffer r)\<rparr>"
      using assms(1) by (simp add: resync_def trim_hunt tl)
    ultimately have "read_loop r fr = read_loop (r\<lparr>buffer := hunt (buffer r)\<rparr>) fr"
      using read_loop_next [OF True] by simp
    with same_result_refl [of "r\<lparr>buffer := hunt (buffer r)\<rparr>" fr] assms(2) show ?thesis
      by simp
  next
    case False
    then have "read_loop r fr = Inr (r, fr)"
      by (simp add: read_loop_short)
    moreover have "read_loop (r\<lparr>buffer := hunt (buffer r)\<rparr>) fr = Inr (r\<lparr>buffer := hunt (buffer r)\<rparr>, fr)"
      using False hunt_length [of "buffer r"] by (simp add: read_loop_short)
    ultimately show ?thesis
      using assms(1) by (simp add: same_result_def same_stream_def hunt_idem)
  qed
qed

lemma same_stream_loop:
  assumes "same_stream r1 r2" and "unhexlify (key_hex r1) \<noteq> None"
  shows "same_result (read_loop r1 fr) (read_loop r2 fr)"
proof (cases "r1 = r2")
  case True
  with same_result_refl [OF assms(2)] show ?thesis by simp
next
  case False
  with assms(1) have f: "frame r1 = None" "frame r2 = None" and k: "key_hex r1 = key_hex r2"
    and h: "hunt (buffer r1) = hunt (buffer r2)"
    by (auto simp: same_stream_def)
  have eq: "r1\<lparr>buffer := hunt (buffer r1)\<rparr> = r2\<lparr>buffer := hunt (buffer r2)\<rparr>"
    using f k h by (cases r1, cases r2) simp
  have "same_result (read_loop r1 fr) (read_loop (r1\<lparr>buffer := hunt (buffer r1)\<rparr>) fr)"
    using f(1) assms(2) by (rule hunting_loop)
  moreover have "same_result (read_loop r2 fr) (read_loop (r2\<lparr>buffer := hunt (buffer r2)\<rparr>) fr)"
    using f(2) assms(2) k by (intro hunting_loop) simp_all
  ultimately show ?thesis
    unfolding eq by (blast intro: same_result_sym same_result_trans)
qed

subsection \<open>Parsers that read a prefix of the stream\<close>

definition stable :: "'a parser \<Rightarrow> bool" where
  "stable p \<longleftrightarrow>
     (\<forall>s t a r. p s = Inr (a, r) \<longrightarrow> p (s @ t) = Inr (a, r @ t)) \<and>
     (\<forall>s t e. p s = Inl e \<longrightarrow> e \<noteq> StreamError \<longrightarrow> p (s @ t) = Inl e)"

lemma stable_then_parse:
  assumes "stable p" and "\<And>a. stable (f a)"
  shows "stable (then_parse p f)"
  unfolding stable_def
proof (intro conjI allI impI)
  fix s t a r
  assume "then_parse p f s = Inr (a, r)"
  then obtain x r1 where "p s = Inr (x, r1)" "f x r1 = Inr (a, r)"
    unfolding then_parse_Inr_iff by blast
  with assms show "then_parse p f (s @ t) = Inr (a, r @ t)"
    unfolding stable_def then_parse_def by (metis (mono_tags, lifting) case_prod_conv sum.case(2))
next
  fix s t e
  assume e: "then_parse p f s = Inl e" "e \<noteq> StreamError"
  show "then_parse p f (s @ t) = Inl e"
  proof (cases "p s")
    case (Inl e')
    with e have "e' = e" by (simp add: then_parse_def)
    with Inl e(2) assms(1) have "p (s @ t) = Inl e"
      unfolding stable_def by blast
    then show ?thesis by (simp add: then_parse_def)
  next
    case (Inr x)
    obtain a r1 where x: "x = (a, r1)" by (cases x)
    with Inr e have "f a r1 = Inl e" by (simp add: then_parse_def)
    with e(2) assms(2) have "f a (r1 @ t) = Inl e"
      unfolding stable_def by blast
    moreover from Inr x assms(1) have "p (s @ t) = Inr (a, r1 @ t)"
      unfolding stable_def by blast
    ultimately show ?thesis by (simp add: then_parse_def)
  qed
qed

lemma stable_parsed: "stable (parsed a)"
  by (simp add: stable_def parsed_def)

lemma stable_failed: "stable (failed e)"
  by (simp add: stable_def failed_def)

lemma stable_Int8ub: "stable Int8ub"
  by (auto simp: stable_def Int8ub_def split: list.splits)

lemma stable_Const: "stable (Const v)"
  unfolding Const_def by (intro stable_then_parse stable_Int8ub) (simp add: stable_parsed stable_failed)

lemma stable_OneOf: "stable (OneOf Int8ub vs)"
  unfolding OneOf_def by (intro stable_then_parse stable_Int8ub) (simp add: stable_parsed stable_failed)

lemma stable_Check: "stable (Check c)"
  by (simp add: Check_def stable_parsed stable_failed)

lemma stable_Bytes: "stable (Bytes n)"
  by (auto simp: stable_def Bytes_def split: if_splits)

lemma stable_Checksum: "stable (Checksum d)"
  unfolding Checksum_def by (intro stable_then_parse stable_Int8ub) (simp add: stable_parsed stable_failed)

lemma stable_header: "stable MBusDataLinkHeader"
  unfolding MBusDataLinkHeader_def
  by (intro stable_then_parse stable_Const stable_Int8ub stable_Check stable_OneOf stable_parsed)

lemma stable_transport: "stable MBusTransportLayer"
  unfolding MBusTransportLayer_def
  by (intro stable_then_parse stable_Const stable_OneOf stable_parsed)

lemma stable_layer: "stable MBusDataLinkLayer"
  unfolding MBusDataLinkLayer_def
  by (intro stable_then_parse stable_header stable_transport stable_Bytes stable_Checksum
      stable_Const stable_parsed)

lemma stable_parse_Inr: "stable p \<Longrightarrow> parse p s = Inr a \<Longrightarrow> parse p (s @ t) = Inr a"
  unfolding parse_Inr_iff stable_def by blast

lemma stable_parse_Inl:
  "stable p \<Longrightarrow> parse p s = Inl e \<Longrightarrow> e \<noteq> StreamError \<Longrightarrow> parse p (s @ t) = Inl e"
  unfolding stable_def parse_def by (auto split: sum.splits)

subsection \<open>One iteration on a longer buffer\<close>

lemma six_bytes:
  "6 \<le> length b \<Longrightarrow> \<exists>b0 b1 b2 b3 b4 b5 rest. b = b0 # b1 # b2 # b3 # b4 # b5 # rest"
  by (auto simp: eval_nat_numeral Suc_le_length_iff)


lemma two_bytes: "2 \<le> length xs \<Longrightarrow> \<exists>a b rest. xs = a # b # rest"
  by (auto simp: eval_nat_numeral Suc_le_length_iff)

lemma three_bytes: "3 \<le> length xs \<Longrightarrow> \<exists>a b c rest. xs = a # b # c # rest"
  by (auto simp: eval_nat_numeral Suc_le_length_iff)

lemma header_parse_six:
  "parse MBusDataLinkHeader (b0 # b1 # b2 # b3 # b4 # b5 # rest) =
     (if b0 \<noteq> 0x68 then Inl ConstError
      else if b2 \<noteq> b1 then Inl CheckError
      else if b3 \<noteq> 0x68 then Inl ConstError
      else if b4 \<noteq> 0x53 \<and> b4 \<noteq> 0x73 then Inl ValidationError
      else if b5 \<noteq> 0xFF then Inl ConstError
      else Inr \<lparr>Start_Character = 0x68, L_Field = b1, L_Field_copy = b1, C_Field = b4, A_Field = 0xFF\<rparr>)"
  by (simp add: MBusDataLinkHeader_def parser_defs)

lemma header_parse_extend:
  assumes "6 \<le> length b"
  shows "parse MBusDataLinkHeader (b @ t) = parse MBusDataLinkHeader b"
proof -
  from six_bytes [OF assms] obtain b0 b1 b2 b3 b4 b5 rest
    where b: "b = b0 # b1 # b2 # b3 # b4 # b5 # rest" by blast
  show ?thesis
    unfolding b append_Cons header_parse_six ..
qed


lemma transport_parse_three:
  "MBusTransportLayer (ci # st # dt # rest) =
     (if \<not> unat ci < 0x1F then Inl ValidationError
      else if st \<noteq> 0x01 then Inl ConstError
      else if dt \<noteq> 0x67 then Inl ConstError
      else Inr (\<lparr>CI_Field = ci, STSAP = 0x01, DTSAP = 0x67\<rparr>, rest))"
  unfolding MBusTransportLayer_def OneOf_def CI_allowed
  by (simp add: parser_defs)

lemma transport_error: "MBusTransportLayer s = Inl e \<Longrightarrow> e \<noteq> ChecksumError"
  unfolding MBusTransportLayer_def OneOf_def CI_allowed
  by (auto simp: parser_defs split: list.splits if_splits)

lemma layer_parse_full:
  assumes "C = 0x53 \<or> C = 0x73" and "5 \<le> unat L" and "length d = unat L - 5"
  shows "parse MBusDataLinkLayer ([0x68, L, L, 0x68, C, 0xFF, ci, st, dt] @ d @ c # stop # rest) =
     (if \<not> unat ci < 0x1F then Inl ValidationError
      else if st \<noteq> 0x01 then Inl ConstError
      else if dt \<noteq> 0x67 then Inl ConstError
      else if unat c \<noteq> (sum_list (map unat d) + unat C + unat (0xFF :: byte) + unat ci
            + unat (0x01 :: byte) + unat (0x67 :: byte)) mod 256
      then Inl ChecksumError
      else if stop \<noteq> 0x16 then Inl ConstError
      else Inr \<lparr>Header = \<lparr>Start_Character = 0x68, L_Field = L, L_Field_copy = L, C_Field = C,
                  A_Field = 0xFF\<rparr>,
                TransportLayer = \<lparr>CI_Field = ci, STSAP = 0x01, DTSAP = 0x67\<rparr>,
                Data = d, Checksum_Field = c, Stop_Character = stop\<rparr>)"
proof (cases "unat ci < 0x1F \<and> st = 0x01 \<and> dt = 0x67")
  case True
  with layer_parse_layout [OF assms(1) _ assms(2,3), of ci c stop rest] show ?thesis
    by simp
next
  case False
  then show ?thesis
    using assms(1)
    by (simp add: MBusDataLinkLayer_def then_parse_def [of MBusDataLinkHeader]
      then_parse_def [of MBusTransportLayer] header_parse_layout transport_parse_three parse_def)
qed

lemma full_shape:
  assumes "parse MBusDataLinkHeader b = Inr h" and "5 \<le> unat (L_Field h)"
    and "unat (L_Field h) + 6 \<le> length b"
  shows "\<exists>C ci st dt d c stop rest.
           b = [0x68, L_Field h, L_Field h, 0x68, C, 0xFF, ci, st, dt] @ d @ c # stop # rest \<and>
           (C = 0x53 \<or> C = 0x73) \<and> length d = unat (L_Field h) - 5"
proof -
  from assms(1) obtain C r1 where b: "b = [0x68, L_Field h, L_Field h, 0x68, C, 0xFF] @ r1"
    and C: "C = 0x53 \<or> C = 0x73"
    unfolding parse_Inr_iff header_parse_iff by auto
  from b assms(2,3) have "3 \<le> length r1" by simp
  from three_bytes [OF this] obtain ci st dt r2 where r1: "r1 = ci # st # dt # r2"
    by blast
  let ?n = "unat (L_Field h) - 5"
  from b r1 assms(2,3) have l2: "?n + 2 \<le> length r2" by simp
  then have "2 \<le> length (drop ?n r2)" by simp
  from two_bytes [OF this] obtain c stop rest where r3: "drop ?n r2 = c # stop # rest"
    by blast
  define d where "d = take ?n r2"
  have r2: "r2 = d @ c # stop # rest"
    unfolding d_def using r3 by (metis append_take_drop_id)
  have ld: "length d = ?n"
    unfolding d_def using l2 by simp
  have "b = [0x68, L_Field h, L_Field h, 0x68, C, 0xFF, ci, st, dt] @ d @ c # stop # rest"
    unfolding b r1 r2 by simp
  with C ld show ?thesis by blast
qed

lemma layer_parse_extend:
  assumes "parse MBusDataLinkHeader b = Inr h" and "5 \<le> unat (L_Field h)"
    and "unat (L_Field h) + 6 \<le> length b"
  shows "parse MBusDataLinkLayer (b @ t) = parse MBusDataLinkLayer b"
proof -
  from full_shape [OF assms] obtain C ci st dt d c stop rest where
    b: "b = [0x68, L_Field h, L_Field h, 0x68, C, 0xFF, ci, st, dt] @ d @ c # stop # rest"
    and C: "C = 0x53 \<or> C = 0x73" and d: "length d = unat (L_Field h) - 5"
    by blast
  have bt: "b @ t = [0x68, L_Field h, L_Field h, 0x68, C, 0xFF, ci, st, dt] @ d @ c # stop # (rest @ t)"
    unfolding b by simp
  show ?thesis
    unfolding bt unfolding b
    unfolding layer_parse_full [OF C assms(2) d] ..
qed

lemma layer_short_L:
  assumes "parse MBusDataLinkHeader b = Inr h" and "unat (L_Field h) < 5"
  shows "\<exists>e. parse MBusDataLinkLayer b = Inl e \<and> e \<noteq> ChecksumError"
proof -
  from assms(1) obtain r1 where h: "MBusDataLinkHeader b = Inr (h, r1)"
    unfolding parse_Inr_iff by blast
  have "\<And>k :: nat. k < 5 \<Longrightarrow> int k - 5 < 0"
    by simp
  from this [OF assms(2)] have neg: "int (unat (L_Field h)) - 5 < 0" .
  show ?thesis
  proof (cases "MBusTransportLayer r1")
    case (Inl e)
    with h transport_error [OF Inl] show ?thesis
      by (simp add: MBusDataLinkLayer_def then_parse_def parse_def)
  next
    case (Inr x)
    obtain tl r2 where "x = (tl, r2)" by (cases x)
    with h Inr neg show ?thesis
      by (simp add: MBusDataLinkLayer_def then_parse_def [of MBusDataLinkHeader]
          then_parse_def [of MBusTransportLayer] then_parse_def [of "Bytes _"] parse_def Bytes_def)
  qed
qed

lemma accumulate_buffer_update:
  "accumulate (r\<lparr>buffer := x\<rparr>) m =
     (case accumulate r m of Inl e \<Rightarrow> Inl e | Inr r1 \<Rightarrow> Inr (r1\<lparr>buffer := x\<rparr>))"
  by (simp add: accumulate_def Let_def split: sum.splits)

lemma complete_buffer_update:
  "complete (r\<lparr>buffer := x\<rparr>) fr ci =
     (case complete r fr ci of (r1, fs) \<Rightarrow> (r1\<lparr>buffer := x\<rparr>, fs))"
  by (simp add: complete_def split: option.splits)

lemma try_frame_extend:
  assumes "parse MBusDataLinkLayer (buffer r @ t) = parse MBusDataLinkLayer (buffer r)"
  shows "try_frame (r\<lparr>buffer := buffer r @ t\<rparr>) fr =
     (case try_frame r fr of Inl e \<Rightarrow> Inl e | Inr (r1, fs) \<Rightarrow> Inr (r1\<lparr>buffer := buffer r @ t\<rparr>, fs))"
  using assms
  by (simp add: try_frame_def accumulate_buffer_update complete_buffer_update split: sum.splits prod.splits)

lemma resync_extend:
  assumes "buffer r \<noteq> []"
  shows "same_stream (resync (r\<lparr>buffer := buffer r @ t\<rparr>))
           ((resync r)\<lparr>buffer := buffer (resync r) @ t\<rparr>)"
  using assms
  by (simp add: same_stream_def resync_def trim_hunt hunt_idem hunt_hunt_append)

lemma read_iteration_extend:
  assumes six: "6 \<le> length (buffer r)" and it: "read_iteration r fr = LoopNext r' fr'"
  shows "\<exists>r''. read_iteration (r\<lparr>buffer := buffer r @ t\<rparr>) fr = LoopNext r'' fr' \<and>
           same_stream r'' (r'\<lparr>buffer := buffer r' @ t\<rparr>)"
proof -
  let ?rt = "r\<lparr>buffer := buffer r @ t\<rparr>"
  have ne: "buffer r \<noteq> []" using six by auto
  have hp: "parse MBusDataLinkHeader (buffer ?rt) = parse MBusDataLinkHeader (buffer r)"
    using header_parse_extend [OF six] by simp
  have resync_case: ?thesis
    if a: "read_iteration r fr = LoopNext (resync r) fr"
      and b: "read_iteration ?rt fr = LoopNext (resync ?rt) fr"
  proof -
    from a it have "r' = resync r" "fr' = fr" by simp_all
    with b resync_extend [OF ne, of t] show ?thesis by simp
  qed
  show ?thesis
  proof (cases "parse MBusDataLinkHeader (buffer r)")
    case (Inl e)
    then have "read_iteration r fr = LoopNext (resync r) fr"
      by (intro construct_error_resyncs disjI1) blast
    moreover from Inl hp have "read_iteration ?rt fr = LoopNext (resync ?rt) fr"
      by (intro construct_error_resyncs disjI1) simp
    ultimately show ?thesis by (rule resync_case)
  next
    case (Inr h)
    let ?dl = "unat (L_Field h) + 6"
    from it Inr have full: "?dl \<le> length (buffer r)"
      by (auto simp: read_iteration_def Let_def split: if_splits)
    then have fullt: "?dl \<le> length (buffer ?rt)" by simp
    have Inrt: "parse MBusDataLinkHeader (buffer ?rt) = Inr h"
      using hp Inr by simp
    show ?thesis
    proof (cases "5 \<le> unat (L_Field h)")
      case False
      then have short: "unat (L_Field h) < 5" by simp
      from layer_short_L [OF Inr short] obtain e where
        "try_frame r fr = Inl (ConstructError e)" "e \<noteq> ChecksumError"
        by (auto simp: try_frame_def)
      with Inr full have "read_iteration r fr = LoopNext (resync r) fr"
        by (intro construct_error_resyncs disjI2) blast
      moreover
      from layer_short_L [OF Inrt short] obtain e' where
        "try_frame ?rt fr = Inl (ConstructError e')" "e' \<noteq> ChecksumError"
        by (auto simp: try_frame_def)
      with Inrt fullt have "read_iteration ?rt fr = LoopNext (resync ?rt) fr"
        by (intro construct_error_resyncs disjI2) blast
      ultimately show ?thesis by (rule resync_case)
    next
      case True
      have "parse MBusDataLinkLayer (buffer r @ t) = parse MBusDataLinkLayer (buffer r)"
        using Inr True full by (rule layer_parse_extend)
      note tf = try_frame_extend [OF this, of fr]
      show ?thesis
      proof (cases "try_frame r fr")
        case (Inr x)
        obtain r1 fs where x: "x = (r1, fs)" by (cases x)
        have b1: "buffer r1 = buffer r"
          using Inr x by (simp add: try_frame_buffer)
        from it \<open>parse MBusDataLinkHeader (buffer r) = Inr h\<close> full Inr x
        have r': "r' = r1\<lparr>buffer := drop ?dl (buffer r)\<rparr>" and fr': "fr' = fs"
          by (simp_all add: read_iteration_def trim_buffer_to_pos_def b1 Let_def)
        have "read_iteration ?rt fr = LoopNext (r1\<lparr>buffer := drop ?dl (buffer r @ t)\<rparr>) fs"
          using Inrt fullt tf Inr x by (simp add: read_iteration_def trim_buffer_to_pos_def Let_def)
        moreover have "r1\<lparr>buffer := drop ?dl (buffer r @ t)\<rparr> = r'\<lparr>buffer := buffer r' @ t\<rparr>"
          using full by (simp add: r')
        ultimately show ?thesis
          using fr' by (simp add: same_stream_refl)
      next
        case (Inl ex)
        show ?thesis
        proof (cases ex)
          case BinasciiError
          with Inl it \<open>parse MBusDataLinkHeader (buffer r) = Inr h\<close> full show ?thesis
            by (simp add: read_iteration_def Let_def)
        next
          case (ConstructError e)
          show ?thesis
          proof (cases "e = ChecksumError")
            case True
            from it \<open>parse MBusDataLinkHeader (buffer r) = Inr h\<close> full Inl ConstructError True
            have r': "r' = r\<lparr>frame := None, buffer := drop ?dl (buffer r)\<rparr>" and fr': "fr' = fr"
              by (simp_all add: read_iteration_def trim_buffer_to_pos_def Let_def)
            have "read_iteration ?rt fr =
                LoopNext (?rt\<lparr>frame := None, buffer := drop ?dl (buffer r @ t)\<rparr>) fr"
              using Inrt fullt tf Inl ConstructError True
              by (simp add: read_iteration_def trim_buffer_to_pos_def Let_def)
            moreover have "?rt\<lparr>frame := None, buffer := drop ?dl (buffer r @ t)\<rparr> =
                r'\<lparr>buffer := buffer r' @ t\<rparr>"
              using full by (simp add: r')
            ultimately show ?thesis
              using fr' by (simp add: same_stream_refl)
          next
            case False
            with Inl ConstructError \<open>parse MBusDataLinkHeader (buffer r) = Inr h\<close> full
            have "read_iteration r fr = LoopNext (resync r) fr"
              by (intro construct_error_resyncs disjI2) blast
            moreover
            from tf Inl ConstructError have "try_frame ?rt fr = Inl (ConstructError e)"
              by simp
            with False Inrt fullt have "read_iteration ?rt fr = LoopNext (resync ?rt) fr"
              by (intro construct_error_resyncs disjI2) blast
            ultimately show ?thesis by (rule resync_case)
          qed
        qed
      qed
    qed
  qed
qed

subsection \<open>The frames received so far are only appended to\<close>

lemma complete_frames:
  "complete r (pre @ fr) ci = (case complete r fr ci of (r1, fs) \<Rightarrow> (r1, pre @ fs))"
  by (simp add: complete_def split: option.splits)

lemma try_frame_frames:
  "try_frame r (pre @ fr) =
     (case try_frame r fr of Inl e \<Rightarrow> Inl e | Inr (r1, fs) \<Rightarrow> Inr (r1, pre @ fs))"
  by (simp add: try_frame_def complete_frames split: sum.splits prod.splits)

lemma read_iteration_frames:
  "read_iteration r (pre @ fr) =
     (case read_iteration r fr of
        LoopBreak \<Rightarrow> LoopBreak
      | LoopNext r' fs \<Rightarrow> LoopNext r' (pre @ fs)
      | LoopRaise e \<Rightarrow> LoopRaise e)"
  by (simp add: read_iteration_def try_frame_frames Let_def
      split: sum.splits prod.splits py_exception.splits construct_error.splits)

lemma read_loop_raise:
  "6 \<le> length (buffer r) \<Longrightarrow> read_iteration r fr = LoopRaise e \<Longrightarrow> read_loop r fr = Inl e"
  by (subst read_loop.simps) simp

lemma read_loop_frames:
  "read_loop r (pre @ fr) =
     (case read_loop r fr of Inl e \<Rightarrow> Inl e | Inr (r', fs) \<Rightarrow> Inr (r', pre @ fs))"
proof (induction r fr rule: read_loop.induct)
  case (1 r fr)
  show ?case
  proof (cases "6 \<le> length (buffer r)")
    case False
    then show ?thesis by (simp add: read_loop_short)
  next
    case True
    show ?thesis
    proof (cases "read_iteration r fr")
      case LoopBreak
      then have "read_iteration r (pre @ fr) = LoopBreak"
        by (simp add: read_iteration_frames)
      with LoopBreak show ?thesis by (simp add: read_loop_break)
    next
      case (LoopNext r1 fr1)
      then have "read_iteration r (pre @ fr) = LoopNext r1 (pre @ fr1)"
        by (simp add: read_iteration_frames)
      from read_loop_next [OF True this] read_loop_next [OF True LoopNext]
        "1.IH" [OF True LoopNext]
      show ?thesis by simp
    next
      case (LoopRaise e)
      then have "read_iteration r (pre @ fr) = LoopRaise e"
        by (simp add: read_iteration_frames)
      from read_loop_raise [OF True this] read_loop_raise [OF True LoopRaise]
      show ?thesis by simp
    qed
  qed
qed


subsection \<open>Reading in chunks and reading at once\<close>

lemma read_loop_split:
  assumes "unhexlify (key_hex r) \<noteq> None"
  shows "\<exists>r1 fs1. read_loop r fr = Inr (r1, fs1) \<and>
           same_result (read_loop (r\<lparr>buffer := buffer r @ t\<rparr>) fr)
             (read_loop (r1\<lparr>buffer := buffer r1 @ t\<rparr>) fs1)"
  using assms
proof (induction r fr rule: read_loop.induct)
  case (1 r fr)
  let ?rt = "r\<lparr>buffer := buffer r @ t\<rparr>"
  have kt: "unhexlify (key_hex ?rt) \<noteq> None"
    using "1.prems" by simp
  have stay: ?case if "read_loop r fr = Inr (r, fr)"
    using that same_result_refl [OF kt, of fr] by simp
  show ?case
  proof (cases "6 \<le> length (buffer r)")
    case False
    then show ?thesis by (intro stay) (simp add: read_loop_short)
  next
    case True
    show ?thesis
    proof (cases "read_iteration r fr")
      case LoopBreak
      then show ?thesis by (intro stay) (simp add: read_loop_break)
    next
      case (LoopRaise e)
      with read_iteration_no_raise [OF "1.prems"] show ?thesis by blast
    next
      case (LoopNext r' fr')
      have k': "unhexlify (key_hex r') \<noteq> None"
        using read_iteration_key [OF LoopNext] "1.prems" by simp
      from "1.IH" [OF True LoopNext k'] obtain r1 fs1 where
        r1: "read_loop r' fr' = Inr (r1, fs1)"
        and ih: "same_result (read_loop (r'\<lparr>buffer := buffer r' @ t\<rparr>) fr')
             (read_loop (r1\<lparr>buffer := buffer r1 @ t\<rparr>) fs1)"
        by blast
      from read_iteration_extend [OF True LoopNext, of t] obtain r'' where
        it: "read_iteration ?rt fr = LoopNext r'' fr'"
        and ss: "same_stream r'' (r'\<lparr>buffer := buffer r' @ t\<rparr>)"
        by blast
      have "6 \<le> length (buffer ?rt)" using True by simp
      from read_loop_next [OF this it] have "read_loop ?rt fr = read_loop r'' fr'" .
      moreover have "unhexlify (key_hex r'') \<noteq> None"
        using read_iteration_key [OF it] "1.prems" by simp
      with ss have "same_result (read_loop r'' fr') (read_loop (r'\<lparr>buffer := buffer r' @ t\<rparr>) fr')"
        by (rule same_stream_loop)
      ultimately have "same_result (read_loop ?rt fr) (read_loop (r1\<lparr>buffer := buffer r1 @ t\<rparr>) fs1)"
        using ih by (auto intro: same_result_trans)
      with r1 read_loop_next [OF True LoopNext] show ?thesis by simp
    qed
  qed
qed

lemma read_loop_settled:
  "read_loop r fr = Inr (r1, fs) \<Longrightarrow> read_loop r1 fr0 = Inr (r1, fr0)"
proof (induction r fr rule: read_loop.induct)
  case (1 r fr)
  show ?case
  proof (cases "6 \<le> length (buffer r)")
    case False
    with "1.prems" have "r1 = r" by (simp add: read_loop_short)
    with False show ?thesis by (simp add: read_loop_short)
  next
    case True
    show ?thesis
    proof (cases "read_iteration r fr")
      case LoopBreak
      with "1.prems" have "r1 = r" by (simp add: read_loop_break)
      moreover have "read_iteration r (fr0 @ []) = LoopBreak \<and> read_iteration r (fr @ []) = LoopBreak"
        using LoopBreak read_iteration_frames [of r fr "[]"] read_iteration_frames [of r fr0 "[]"]
        by (cases "read_iteration r []") simp_all
      ultimately show ?thesis by (simp add: read_loop_break)
    next
      case (LoopNext r' fr')
      with "1.prems" have "read_loop r' fr' = Inr (r1, fs)"
        by (simp add: read_loop_next [OF True LoopNext])
      then show ?thesis by (rule "1.IH" [OF True LoopNext])
    next
      case (LoopRaise e)
      from read_loop_raise [OF True this] "1.prems" show ?thesis by simp
    qed
  qed
qed

text \<open>
  The caller of the claim: \<^verbatim>\<open>read(c1)\<close>, ..., \<^verbatim>\<open>read(ck)\<close> on one reader, the frames of
  the calls concatenated in order.
\<close>

fun read_chunks ::
  "reader \<Rightarrow> byte list list \<Rightarrow> py_exception + (reader \<times> DlmsTinetzFrame list)" where
  "read_chunks r [] = Inr (r, [])"
| "read_chunks r (c # cs) =
     (case read r c of
        Inl e \<Rightarrow> Inl e
      | Inr (r1, fs1) \<Rightarrow>
         (case read_chunks r1 cs of Inl e \<Rightarrow> Inl e | Inr (r2, fs2) \<Rightarrow> Inr (r2, fs1 @ fs2)))"

lemma same_result_frames:
  "same_result a b \<Longrightarrow>
   same_result (case a of Inl e \<Rightarrow> Inl e | Inr (r', fs) \<Rightarrow> Inr (r', pre @ fs))
     (case b of Inl e \<Rightarrow> Inl e | Inr (r', fs) \<Rightarrow> Inr (r', pre @ fs))"
  by (auto simp: same_result_def)

lemma chunks_whole:
  assumes "read_loop r [] = Inr (r, [])" and "unhexlify (key_hex r) \<noteq> None"
  shows "same_result (read_chunks r cs) (read r (concat cs))"
  using assms
proof (induction cs arbitrary: r)
  case Nil
  then show ?case by (simp add: read_def same_result_def same_stream_refl)
next
  case (Cons c cs)
  let ?r0 = "r\<lparr>buffer := buffer r @ c\<rparr>"
  have k0: "unhexlify (key_hex ?r0) \<noteq> None"
    using Cons.prems(2) by simp
  from read_loop_split [OF k0, of "[]" "concat cs"] obtain r1 fs1 where
    r1: "read_loop ?r0 [] = Inr (r1, fs1)"
    and sp: "same_result (read_loop (?r0\<lparr>buffer := buffer ?r0 @ concat cs\<rparr>) [])
             (read_loop (r1\<lparr>buffer := buffer r1 @ concat cs\<rparr>) fs1)"
    by blast
  have settled: "read_loop r1 [] = Inr (r1, [])"
    using r1 by (rule read_loop_settled)
  have k1: "unhexlify (key_hex r1) \<noteq> None"
    using read_loop_returns [OF k0, of "[]"] r1 Cons.prems(2) by simp
  have whole: "read r (concat (c # cs)) = read_loop (?r0\<lparr>buffer := buffer ?r0 @ concat cs\<rparr>) []"
    by (simp add: read_def)
  have cont: "read_loop (r1\<lparr>buffer := buffer r1 @ concat cs\<rparr>) fs1 =
      (case read r1 (concat cs) of Inl e \<Rightarrow> Inl e | Inr (r', fs) \<Rightarrow> Inr (r', fs1 @ fs))"
    using read_loop_frames [of "r1\<lparr>buffer := buffer r1 @ concat cs\<rparr>" fs1 "[]"]
    by (simp add: read_def)
  have chunks: "read_chunks r (c # cs) =
      (case read_chunks r1 cs of Inl e \<Rightarrow> Inl e | Inr (r', fs) \<Rightarrow> Inr (r', fs1 @ fs))"
    using r1 by (simp add: read_def)
  from Cons.IH [OF settled k1]
  have "same_result (read_chunks r (c # cs)) (read_loop (r1\<lparr>buffer := buffer r1 @ concat cs\<rparr>) fs1)"
    unfolding chunks cont by (rule same_result_frames)
  with sp show ?case
    unfolding whole by (blast intro: same_result_sym same_result_trans)
qed

lemma incomplete_frame_waits:
  assumes "parse MBusDataLinkHeader (buffer r) = Inr h"
    and "length (buffer r) < unat (L_Field h) + 6"
  shows "read_loop r fr = Inr (r, fr)"
proof (cases "6 \<le> length (buffer r)")
  case True
  from assms have "read_iteration r fr = LoopBreak"
    by (simp add: read_iteration_def Let_def)
  then show ?thesis by (rule read_loop_break)
next
  case False
  then show ?thesis by (simp add: read_loop_short)
qed

text \<open>
  Claim C1. With a key that is hexadecimal, reading a stream in consecutive chunks on a
  fresh reader returns, call after call, the frames that one \<^verbatim>\<open>read\<close> of the whole stream
  on a fresh reader returns, in the same order. The decoded measurement mappings are
  computed frame by frame from these frames, so they agree as well. A frame whose header
  parses and that is not yet fully buffered ends the loop with the reader unchanged, the
  pending frame included: it is kept, and nothing is raised or dropped.
\<close>

theorem chunk_boundary_independence:
  "(unhexlify k \<noteq> None \<longrightarrow>
      (\<exists>r1 r2 fs. read_chunks (new_reader k) cs = Inr (r1, fs) \<and>
         read (new_reader k) (concat cs) = Inr (r2, fs)))
   \<and> (parse MBusDataLinkHeader (buffer r) = Inr h \<and> length (buffer r) < unat (L_Field h) + 6 \<longrightarrow>
        read_loop r fr = Inr (r, fr))"
proof (intro conjI impI)
  assume k: "unhexlify k \<noteq> None"
  have "read_loop (new_reader k) [] = Inr (new_reader k, [])"
    by (simp add: read_loop_short new_reader_def)
  moreover have "unhexlify (key_hex (new_reader k)) \<noteq> None"
    using k by (simp add: new_reader_def)
  ultimately have "same_result (read_chunks (new_reader k) cs) (read (new_reader k) (concat cs))"
    by (rule chunks_whole)
  then show "\<exists>r1 r2 fs. read_chunks (new_reader k) cs = Inr (r1, fs) \<and>
         read (new_reader k) (concat cs) = Inr (r2, fs)"
    unfolding same_result_def by blast
next
  assume "parse MBusDataLinkHeader (buffer r) = Inr h \<and> length (buffer r) < unat (L_Field h) + 6"
  then show "read_loop r fr = Inr (r, fr)"
    using incomplete_frame_waits by blast
qed


theorem chunk_boundary_independence_witness:
  "(\<exists>r1 r2 fs.
      read_chunks (new_reader ''00'')
        [[0x00, 0x68, 0x07, 0x07, 0x68, 0x53, 0xFF, 0x11, 0x01, 0x67, 0xAA],
         [0xBB, 0x31, 0x16, 0x68, 0x17, 0x17, 0x68, 0x53, 0xFF, 0x10, 0x01, 0x67, 0xDB, 0x08, 1, 2],
         [3, 4, 5, 6, 7, 8, 0x07, 0x21, 0, 0, 0, 1, 0xAB, 0xCD, 0x72, 0x16]] = Inr (r1, fs) \<and>
      read (new_reader ''00'')
        (concat [[0x00, 0x68, 0x07, 0x07, 0x68, 0x53, 0xFF, 0x11, 0x01, 0x67, 0xAA],
         [0xBB, 0x31, 0x16, 0x68, 0x17, 0x17, 0x68, 0x53, 0xFF, 0x10, 0x01, 0x67, 0xDB, 0x08, 1, 2],
         [3, 4, 5, 6, 7, 8, 0x07, 0x21, 0, 0, 0, 1, 0xAB, 0xCD, 0x72, 0x16]]) = Inr (r2, fs))
   \<and> read_chunks (new_reader ''00'')
        [[0x00, 0x68, 0x07, 0x07, 0x68, 0x53, 0xFF, 0x11, 0x01, 0x67, 0xAA],
         [0xBB, 0x31, 0x16, 0x68, 0x17, 0x17, 0x68, 0x53, 0xFF, 0x10, 0x01, 0x67, 0xDB, 0x08, 1, 2],
         [3, 4, 5, 6, 7, 8, 0x07, 0x21, 0, 0, 0, 1, 0xAB, 0xCD, 0x72, 0x16]] =
       Inr (\<lparr>buffer = [], frame = None, key_hex = ''00''\<rparr>,
         [\<lparr>f_key = [0], f_length = 2, f_system_title = [1, 2, 3, 4, 5, 6, 7, 8],
           f_frame_counter = [0, 0, 0, 1], f_frame_data = [0xAB, 0xCD]\<rparr>])
   \<and> read_loop \<lparr>buffer = [0x68, 0x17, 0x17, 0x68, 0x53, 0xFF, 0x10, 0x01, 0x67, 0xDB],
         frame = None, key_hex = ''00''\<rparr> [] =
       Inr (\<lparr>buffer = [0x68, 0x17, 0x17, 0x68, 0x53, 0xFF, 0x10, 0x01, 0x67, 0xDB],
         frame = None, key_hex = ''00''\<rparr>, [])"
proof -
  let ?cs = "[[0x00, 0x68, 0x07, 0x07, 0x68, 0x53, 0xFF, 0x11, 0x01, 0x67, 0xAA],
         [0xBB, 0x31, 0x16, 0x68, 0x17, 0x17, 0x68, 0x53, 0xFF, 0x10, 0x01, 0x67, 0xDB, 0x08, 1, 2],
         [3, 4, 5, 6, 7, 8, 0x07, 0x21, 0, 0, 0, 1, 0xAB, 0xCD, 0x72, 0x16]] :: byte list list"
  let ?r = "\<lparr>buffer = [0x68, 0x17, 0x17, 0x68, 0x53, 0xFF, 0x10, 0x01, 0x67, 0xDB],
         frame = None, key_hex = ''00''\<rparr>"
  let ?h = "\<lparr>Start_Character = 0x68, L_Field = 0x17, L_Field_copy = 0x17, C_Field = 0x53, A_Field = 0xFF\<rparr>"
  note t = chunk_boundary_independence [where k = "''00''" and cs = ?cs and r = ?r and h = ?h and fr = "[]"]
  have k: "unhexlify ''00'' \<noteq> None"
    by code_simp
  have p: "parse MBusDataLinkHeader (buffer ?r) = Inr ?h \<and> length (buffer ?r) < unat (L_Field ?h) + 6"
    by code_simp
  have c1: "\<exists>r1 r2 fs. read_chunks (new_reader ''00'') ?cs = Inr (r1, fs) \<and>
      read (new_reader ''00'') (concat ?cs) = Inr (r2, fs)"
    using t [THEN conjunct1] k by blast
  have c2: "read_chunks (new_reader ''00'') ?cs =
       Inr (\<lparr>buffer = [], frame = None, key_hex = ''00''\<rparr>,
         [\<lparr>f_key = [0], f_length = 2, f_system_title = [1, 2, 3, 4, 5, 6, 7, 8],
           f_frame_counter = [0, 0, 0, 1], f_frame_data = [0xAB, 0xCD]\<rparr>])"
    by code_simp
  have c3: "read_loop ?r [] = Inr (?r, [])"
    using t [THEN conjunct2] p by blast
  from c1 c2 c3 show ?thesis
    by (intro conjI)
qed

section \<open>Properties of the notification body\<close>

lemma SimpleElement_cnt: "SimpleElement c s = Inr (x, r) \<Longrightarrow> se_cnt x = 2"
  by (auto simp: SimpleElement_def then_parse_Inr_iff parsed_def)

lemma StructElement_cnt: "StructElement c s = Inr (y, r) \<Longrightarrow> st_cnt y = 1"
  by (auto simp: StructElement_def then_parse_Inr_iff parsed_def)

lemma Element_cases:
  assumes "Element c s = Inr (i, r)"
  shows "(\<exists>x. SimpleElement c s = Inr (x, r) \<and> i = Simple x) \<or>
         (\<exists>y. StructElement c s = Inr (y, r) \<and> i = Structured y)"
  using assms
  by (auto simp: Element_def Select_def then_parse_def parsed_def split: sum.splits)

lemma Element_cnt:
  assumes "Element c s = Inr (i, r)"
  shows "cnt i = (case i of Simple x \<Rightarrow> 2 | Structured y \<Rightarrow> 1)"
  using Element_cases [OF assms]
  by (auto simp: cnt_def dest: SimpleElement_cnt StructElement_cnt)

lemma GreedyRange_items:
  assumes "GreedyRange p s = Some res"
  shows "\<forall>i\<in>set (fst res). \<exists>s' r'. p s' = Inr (i, r')"
  using assms
proof (induction p s res rule: GreedyRange.raw_induct [rotated 1, consumes 1, case_names step])
  case (step gr p s res)
  show ?case
  proof (cases "p s")
    case (Inl e)
    with step(2) show ?thesis by auto
  next
    case (Inr x)
    obtain a rest where x: "x = (a, rest)" by (cases x)
    with Inr step(2) obtain xs r where g: "gr p rest = Some (xs, r)" and res: "res = (a # xs, r)"
      by (auto simp: bind_eq_Some_conv)
    from step(1) [OF g] res Inr x show ?thesis by fastforce
  qed
qed

text \<open>An element parser that consumes input makes the range return.\<close>

lemma GreedyRange_returns:
  assumes "\<And>s a r. p s = Inr (a, r) \<Longrightarrow> length r < length s"
  shows "\<exists>res. GreedyRange p s = Some res"
proof (induction s rule: length_induct)
  case (1 s)
  show ?case
  proof (cases "p s")
    case (Inl e)
    then show ?thesis by (subst GreedyRange.simps) simp
  next
    case (Inr x)
    obtain a rest where x: "x = (a, rest)" by (cases x)
    with Inr assms have "length rest < length s" by blast
    with 1 obtain res where "GreedyRange p rest = Some res" by blast
    with Inr x show ?thesis by (subst GreedyRange.simps) (auto split: prod.splits)
  qed
qed

lemmas kaifa_defs = SimpleElement_def StructElement_def Element_def Select_def content_def
  unscaled_def exposed_def ScalerUnitField_def Const_type_def raising_def

lemmas example_defs = example_cosem_def example_tags_def example_text_def

lemma example_struct_element:
  "StructElement example_cosem
     ([0x02, 0x04, 0x09, 0x06, 0x01, 0x00, 0x20, 0x07, 0x00, 0xFF, 0x12, 0x09, 0x2E,
       0x02, 0x02, 0x0F, 0xFF, 0x16, 0x23] @ rest) =
     Inr (\<lparr>st_length = 0x04,
            st_obis = map (\<lambda>b. char_of (unat b)) [0x01, 0x00, 0x20, 0x07, 0x00, 0xFF :: byte],
            st_content_type = long_unsigned_tag,
            st_content = ContentScaled \<lparr>unscaled_value = 2350,
              scaler_unit = \<lparr>scaler = \<lparr>exponent = - 1, scale = 1 / 10\<rparr>, unit_of = 35\<rparr>,
              scaled_value = 235\<rparr>,
            st_value = ExposedNumber 235, st_cnt = 1\<rparr>, rest)"
  by (simp add: kaifa_defs example_defs parser_defs power_int_minus)

lemma example_simple_element:
  "SimpleElement example_cosem
     ([0x09, 0x06, 0x00, 0x00, 0x60, 0x01, 0x00, 0xFF, 0x12, 0x00, 0x2A] @ rest) =
     Inr (\<lparr>se_element_type = Some octet_string_tag,
            se_obis = map (\<lambda>b. char_of (unat b)) [0x00, 0x00, 0x60, 0x01, 0x00, 0xFF :: byte],
            se_value_type = Some long_unsigned_tag, se_value = 42, se_cnt = 2\<rparr>, rest)"
  by (simp add: kaifa_defs example_defs parser_defs)

lemma example_simple_fails:
  "SimpleElement example_cosem (0x02 # rest) = Inl ConstError"
  by (simp add: kaifa_defs example_defs parser_defs)

lemma example_end: "Element example_cosem [] = Inl SelectError"
  by (simp add: kaifa_defs example_defs parser_defs)

lemma example_items:
  "GreedyRange (Element example_cosem)
     ([0x09, 0x06, 0x00, 0x00, 0x60, 0x01, 0x00, 0xFF, 0x12, 0x00, 0x2A] @
      [0x02, 0x04, 0x09, 0x06, 0x01, 0x00, 0x20, 0x07, 0x00, 0xFF, 0x12, 0x09, 0x2E,
       0x02, 0x02, 0x0F, 0xFF, 0x16, 0x23]) =
   Some ([Simple \<lparr>se_element_type = Some octet_string_tag,
            se_obis = map (\<lambda>b. char_of (unat b)) [0x00, 0x00, 0x60, 0x01, 0x00, 0xFF :: byte],
            se_value_type = Some long_unsigned_tag, se_value = 42, se_cnt = 2\<rparr>,
          Structured \<lparr>st_length = 0x04,
            st_obis = map (\<lambda>b. char_of (unat b)) [0x01, 0x00, 0x20, 0x07, 0x00, 0xFF :: byte],
            st_content_type = long_unsigned_tag,
            st_content = ContentScaled \<lparr>unscaled_value = 2350,
              scaler_unit = \<lparr>scaler = \<lparr>exponent = - 1, scale = 1 / 10\<rparr>, unit_of = 35\<rparr>,
              scaled_value = 235\<rparr>,
            st_value = ExposedNumber 235, st_cnt = 1\<rparr>], [])"
proof -
  let ?struct = "[0x02, 0x04, 0x09, 0x06, 0x01, 0x00, 0x20, 0x07, 0x00, 0xFF, 0x12, 0x09, 0x2E,
       0x02, 0x02, 0x0F, 0xFF, 0x16, 0x23] :: byte list"
  have e1: "Element example_cosem
      ([0x09, 0x06, 0x00, 0x00, 0x60, 0x01, 0x00, 0xFF, 0x12, 0x00, 0x2A] @ ?struct) =
      Inr (Simple \<lparr>se_element_type = Some octet_string_tag,
            se_obis = map (\<lambda>b. char_of (unat b)) [0x00, 0x00, 0x60, 0x01, 0x00, 0xFF :: byte],
            se_value_type = Some long_unsigned_tag, se_value = 42, se_cnt = 2\<rparr>, ?struct)"
    unfolding Element_def Select_def
    by (simp only: then_parse_def example_simple_element sum.case prod.case parsed_def)
  have e2: "Element example_cosem ?struct =
      Inr (Structured \<lparr>st_length = 0x04,
            st_obis = map (\<lambda>b. char_of (unat b)) [0x01, 0x00, 0x20, 0x07, 0x00, 0xFF :: byte],
            st_content_type = long_unsigned_tag,
            st_content = ContentScaled \<lparr>unscaled_value = 2350,
              scaler_unit = \<lparr>scaler = \<lparr>exponent = - 1, scale = 1 / 10\<rparr>, unit_of = 35\<rparr>,
              scaled_value = 235\<rparr>,
            st_value = ExposedNumber 235, st_cnt = 1\<rparr>, [])"
    unfolding Element_def Select_def
    using example_struct_element [of "[]"] example_simple_fails
    by (simp add: then_parse_def parsed_def)
  show ?thesis
    apply (subst GreedyRange.simps)
    apply (simp only: e1 sum.case prod.case)
    apply (subst GreedyRange.simps)
    apply (simp only: e2 sum.case prod.case)
    apply (subst GreedyRange.simps)
    apply (simp only: example_end sum.case prod.case Option.bind.simps)
    done
qed

text \<open>
  Claim C3. Once the structure tag and the one-byte field count of a notification body are
  read and the range of elements has ended, the body is a decode failure (the error of
  \<^verbatim>\<open>Check\<close>) exactly when the declared count differs from the sum of the weights of
  the items parsed; otherwise it is the body with all of these items, none left out. A
  simple element weighs 2 and a structured element 1.
\<close>

theorem field_count_check:
  assumes "then_parse (Const_type c structure_tag) (\<lambda>_. Int8ub) s = Inr (n, rest)"
    and "GreedyRange (Element c) rest = Some (items, rest')"
  shows "NotificationBodyObisElements c s =
           Some (if unat n = sum_list (map cnt items)
                 then Inr (\<lparr>nb_fields = n, list_items = items\<rparr>, rest')
                 else Inl CheckError)
       \<and> (\<forall>i\<in>set items. cnt i = (case i of Simple x \<Rightarrow> 2 | Structured y \<Rightarrow> 1))"
proof
  show "NotificationBodyObisElements c s =
           Some (if unat n = sum_list (map cnt items)
                 then Inr (\<lparr>nb_fields = n, list_items = items\<rparr>, rest')
                 else Inl CheckError)"
    using assms
    by (simp add: NotificationBodyObisElements_def Check_def then_parse_def [of "parsed _"]
        then_parse_def [of "failed _"] parsed_def failed_def)
  show "\<forall>i\<in>set items. cnt i = (case i of Simple x \<Rightarrow> 2 | Structured y \<Rightarrow> 1)"
    using GreedyRange_items [OF assms(2)] Element_cnt by fastforce
qed

theorem field_count_check_witness:
  "NotificationBodyObisElements example_cosem
     ([0x02, 0x03] @ [0x09, 0x06, 0x00, 0x00, 0x60, 0x01, 0x00, 0xFF, 0x12, 0x00, 0x2A] @
      [0x02, 0x04, 0x09, 0x06, 0x01, 0x00, 0x20, 0x07, 0x00, 0xFF, 0x12, 0x09, 0x2E,
       0x02, 0x02, 0x0F, 0xFF, 0x16, 0x23]) =
     Some (Inr (\<lparr>nb_fields = 3, list_items =
       [Simple \<lparr>se_element_type = Some octet_string_tag,
          se_obis = map (\<lambda>b. char_of (unat b)) [0x00, 0x00, 0x60, 0x01, 0x00, 0xFF :: byte],
          se_value_type = Some long_unsigned_tag, se_value = 42, se_cnt = 2\<rparr>,
        Structured \<lparr>st_length = 0x04,
          st_obis = map (\<lambda>b. char_of (unat b)) [0x01, 0x00, 0x20, 0x07, 0x00, 0xFF :: byte],
          st_content_type = long_unsigned_tag,
          st_content = ContentScaled \<lparr>unscaled_value = 2350,
            scaler_unit = \<lparr>scaler = \<lparr>exponent = - 1, scale = 1 / 10\<rparr>, unit_of = 35\<rparr>,
            scaled_value = 235\<rparr>,
          st_value = ExposedNumber 235, st_cnt = 1\<rparr>]\<rparr>, []))
   \<and> NotificationBodyObisElements example_cosem
     ([0x02, 0x04] @ [0x09, 0x06, 0x00, 0x00, 0x60, 0x01, 0x00, 0xFF, 0x12, 0x00, 0x2A] @
      [0x02, 0x04, 0x09, 0x06, 0x01, 0x00, 0x20, 0x07, 0x00, 0xFF, 0x12, 0x09, 0x2E,
       0x02, 0x02, 0x0F, 0xFF, 0x16, 0x23]) =
     Some (Inl CheckError)"
proof -
  let ?i1 = "Simple \<lparr>se_element_type = Some octet_string_tag,
          se_obis = map (\<lambda>b. char_of (unat b)) [0x00, 0x00, 0x60, 0x01, 0x00, 0xFF :: byte],
          se_value_type = Some long_unsigned_tag, se_value = 42, se_cnt = 2\<rparr> :: (int, byte list) item"
  let ?i2 = "Structured \<lparr>st_length = 0x04,
          st_obis = map (\<lambda>b. char_of (unat b)) [0x01, 0x00, 0x20, 0x07, 0x00, 0xFF :: byte],
          st_content_type = long_unsigned_tag,
          st_content = ContentScaled \<lparr>unscaled_value = 2350,
            scaler_unit = \<lparr>scaler = \<lparr>exponent = - 1, scale = 1 / 10\<rparr>, unit_of = 35\<rparr>,
            scaled_value = 235\<rparr>,
          st_value = ExposedNumber 235, st_cnt = 1\<rparr> :: (int, byte list) item"
  let ?rest = "[0x09, 0x06, 0x00, 0x00, 0x60, 0x01, 0x00, 0xFF, 0x12, 0x00, 0x2A] @
      [0x02, 0x04, 0x09, 0x06, 0x01, 0x00, 0x20, 0x07, 0x00, 0xFF, 0x12, 0x09, 0x2E,
       0x02, 0x02, 0x0F, 0xFF, 0x16, 0x23] :: byte list"
  have h: "then_parse (Const_type example_cosem structure_tag) (\<lambda>_. Int8ub) ([0x02, n] @ ?rest)
      = Inr (n, ?rest)" for n
    by (simp add: Const_type_def example_defs parser_defs)
  have g: "GreedyRange (Element example_cosem) ?rest = Some ([?i1, ?i2], [])"
    by (rule example_items)
  have s: "sum_list (map cnt [?i1, ?i2]) = 3"
    by (simp add: cnt_def)
  have u: "unat (0x03 :: byte) = 3" "unat (0x04 :: byte) \<noteq> 3"
    by simp_all
  from field_count_check [OF h g, THEN conjunct1] field_count_check [OF h g, THEN conjunct1]
  show ?thesis
    unfolding s by (simp only: u if_True if_False simp_thms)
qed

lemma raising_Inr_iff: "raising p s = Inr x \<longleftrightarrow> p s = Inr x"
  by (simp add: raising_def split: sum.splits)

lemma unscaled_numeric:
  assumes "unscaled c ctype s = Inr (u, r)"
    and "ctype = double_long_unsigned_tag \<or> ctype = long_tag \<or> ctype = long_unsigned_tag"
  shows "\<exists>n. u = Some n \<and>
           (case ctype of double_long_unsigned_tag \<Rightarrow> DoubleLongUnsigned c
              | long_tag \<Rightarrow> Long c | _ \<Rightarrow> LongUnsigned c) s = Inr (n, r)"
  using assms by (auto simp: unscaled_def then_parse_Inr_iff parsed_def)

text \<open>
  Claim C4. A structured element whose content type is double-long-unsigned, long or
  long-unsigned exposes the unscaled integer read by the parser of its type, multiplied by
  ten to the power of the signed exponent of the scaler-and-unit structure that follows:
  2350 with exponent -1 is 235.
\<close>

theorem scaled_numeric_value:
  assumes "StructElement c s = Inr (y, r)"
    and "st_content_type y = double_long_unsigned_tag \<or> st_content_type y = long_tag \<or>
         st_content_type y = long_unsigned_tag"
  shows "\<exists>sv r4 r5.
           st_content y = ContentScaled sv \<and>
           (case st_content_type y of double_long_unsigned_tag \<Rightarrow> DoubleLongUnsigned c
              | long_tag \<Rightarrow> Long c | _ \<Rightarrow> LongUnsigned c) r4 = Inr (unscaled_value sv, r5) \<and>
           ScalerUnitField c r5 = Inr (scaler_unit sv, r) \<and>
           st_value y =
             ExposedNumber (of_int (unscaled_value sv) * 10 powi exponent (scaler (scaler_unit sv)))"
proof -
  from assms(1) obtain len ob ctype ct r4 where
    ct: "content c ctype r4 = Inr (ct, r)"
    and y: "y = \<lparr>st_length = len, st_obis = ob, st_content_type = ctype, st_content = ct,
       st_value = exposed ct, st_cnt = 1\<rparr>"
    unfolding StructElement_def then_parse_Inr_iff parsed_def by auto
  from y assms(2) have num: "ctype = double_long_unsigned_tag \<or> ctype = long_tag \<or> ctype = long_unsigned_tag"
    by simp
  with ct obtain u su r5 r6 where u: "unscaled c ctype r4 = Inr (u, r5)"
    and su6: "ScalerUnitField c r5 = Inr (su, r6)"
    and fin: "(case u of None \<Rightarrow> failed TypeError
           | Some n \<Rightarrow> parsed (ContentScaled \<lparr>unscaled_value = n, scaler_unit = su,
                          scaled_value = of_int n * scale (scaler su)\<rparr>)) r6 = Inr (ct, r)"
    by (auto simp: content_def then_parse_Inr_iff raising_Inr_iff)
  from unscaled_numeric [OF u num] obtain n where n: "u = Some n"
    and pn: "(case ctype of double_long_unsigned_tag \<Rightarrow> DoubleLongUnsigned c
              | long_tag \<Rightarrow> Long c | _ \<Rightarrow> LongUnsigned c) r4 = Inr (n, r5)"
    by blast
  from su6 have sc: "scale (scaler su) = 10 powi exponent (scaler su)"
    by (auto simp: ScalerUnitField_def then_parse_Inr_iff parsed_def)
  from fin n have ctv: "ct = ContentScaled \<lparr>unscaled_value = n, scaler_unit = su,
      scaled_value = of_int n * scale (scaler su)\<rparr>" and r6: "r6 = r"
    by (simp_all add: parsed_def)
  from su6 r6 have su: "ScalerUnitField c r5 = Inr (su, r)"
    by simp
  let ?sv = "\<lparr>unscaled_value = n, scaler_unit = su, scaled_value = of_int n * scale (scaler su)\<rparr>"
  have "st_content y = ContentScaled ?sv"
    using y ctv by simp
  moreover have "(case st_content_type y of double_long_unsigned_tag \<Rightarrow> DoubleLongUnsigned c
              | long_tag \<Rightarrow> Long c | _ \<Rightarrow> LongUnsigned c) r4 = Inr (unscaled_value ?sv, r5)"
    using y pn by simp
  moreover have "ScalerUnitField c r5 = Inr (scaler_unit ?sv, r)"
    using su by simp
  moreover have "st_value y =
      ExposedNumber (of_int (unscaled_value ?sv) * 10 powi exponent (scaler (scaler_unit ?sv)))"
    using y ctv sc by (simp add: exposed_def)
  ultimately show ?thesis by blast
qed

theorem scaled_numeric_value_witness:
  "StructElement example_cosem
     [0x02, 0x04, 0x09, 0x06, 0x01, 0x00, 0x20, 0x07, 0x00, 0xFF, 0x12, 0x09, 0x2E,
      0x02, 0x02, 0x0F, 0xFF, 0x16, 0x23] =
     Inr (\<lparr>st_length = 0x04,
            st_obis = map (\<lambda>b. char_of (unat b)) [0x01, 0x00, 0x20, 0x07, 0x00, 0xFF :: byte],
            st_content_type = long_unsigned_tag,
            st_content = ContentScaled \<lparr>unscaled_value = 2350,
              scaler_unit = \<lparr>scaler = \<lparr>exponent = - 1, scale = 1 / 10\<rparr>, unit_of = 35\<rparr>,
              scaled_value = 235\<rparr>,
            st_value = ExposedNumber 235, st_cnt = 1\<rparr>, [])
   \<and> ExposedNumber (of_int 2350 * 10 powi (- 1)) = (ExposedNumber 235 :: byte list exposed_t)"
proof -
  let ?sv = "\<lparr>unscaled_value = 2350,
              scaler_unit = \<lparr>scaler = \<lparr>exponent = - 1, scale = 1 / 10\<rparr>, unit_of = 35\<rparr>,
              scaled_value = 235\<rparr>"
  let ?y = "\<lparr>st_length = 0x04,
            st_obis = map (\<lambda>b. char_of (unat b)) [0x01, 0x00, 0x20, 0x07, 0x00, 0xFF :: byte],
            st_content_type = long_unsigned_tag,
            st_content = ContentScaled ?sv,
            st_value = ExposedNumber 235 :: byte list exposed_t, st_cnt = 1\<rparr>"
  have p: "StructElement example_cosem
     [0x02, 0x04, 0x09, 0x06, 0x01, 0x00, 0x20, 0x07, 0x00, 0xFF, 0x12, 0x09, 0x2E,
      0x02, 0x02, 0x0F, 0xFF, 0x16, 0x23] = Inr (?y, [])"
    using example_struct_element [of "[]"] by simp
  have t: "st_content_type ?y = double_long_unsigned_tag \<or> st_content_type ?y = long_tag \<or>
         st_content_type ?y = long_unsigned_tag"
    by simp
  from scaled_numeric_value [OF p t] obtain sv where
    c: "st_content ?y = ContentScaled sv"
    and v: "st_value ?y = ExposedNumber (of_int (unscaled_value sv) * 10 powi exponent (scaler (scaler_unit sv)))"
    by blast
  from c have "sv = ?sv" by simp
  with v have "ExposedNumber (of_int 2350 * 10 powi (- 1)) = (ExposedNumber 235 :: byte list exposed_t)"
    by simp
  with p show ?thesis by (intro conjI)
qed

end
